theory Spec2Isabelle
  imports Main "HOL-Library.Word"
begin

section \<open>Strings and characters\<close>

text \<open>
  A JavaScript string is a sequence of UTF-16 code units. The renderer never does
  arithmetic on code units; it only compares them and tests their class.
\<close>

type_synonym jschar = "16 word"
type_synonym jsstring = "jschar list"

text \<open>Writes an ASCII literal as a JavaScript string.\<close>

definition js :: "string \<Rightarrow> jsstring" where
  "js s = map (\<lambda>c. of_nat (of_char c)) s"

definition chPlus :: jschar where "chPlus = 0x2B"
definition chMinus :: jschar where "chMinus = 0x2D"
definition chSpace :: jschar where "chSpace = 0x20"
definition chBackslash :: jschar where "chBackslash = 0x5C"
definition chT :: jschar where "chT = 0x74"
definition chTab :: jschar where "chTab = 0x09"
definition chNewline :: jschar where "chNewline = 0x0A"

text \<open>The regular-expression class \<open>\s\<close>: WhiteSpace and LineTerminator code units.\<close>

definition isWhiteSpace :: "jschar \<Rightarrow> bool" where
  "isWhiteSpace c \<longleftrightarrow>
     c \<in> {0x09, 0x0A, 0x0B, 0x0C, 0x0D, 0x20, 0xA0, 0x1680,
          0x2028, 0x2029, 0x202F, 0x205F, 0x3000, 0xFEFF}
     \<or> (0x2000 \<le> c \<and> c \<le> 0x200A)"

text \<open>The class \<open>\d\<close>.\<close>

definition isDigit :: "jschar \<Rightarrow> bool" where
  "isDigit c \<longleftrightarrow> 0x30 \<le> c \<and> c \<le> 0x39"

text \<open>The code units that \<open>.\<close> does not match (no \<open>s\<close> flag).\<close>

definition isLineTerminator :: "jschar \<Rightarrow> bool" where
  "isLineTerminator c \<longleftrightarrow> c \<in> {0x0A, 0x0D, 0x2028, 0x2029}"

section \<open>Styled text\<close>

text \<open>
  Modelled from the spec: \<open>theme.fg\<close> and \<open>theme.inverse\<close> live in the theme module,
  which is not among the sources. The spec describes them as functions from text to
  styled text that compose by string concatenation, and speaks of stripping the
  markers they add. Styled text is therefore a sequence of tokens, each a code unit
  of text or a styling marker, and each function wraps its argument in an opening and
  a closing marker. \<open>Syntax\<close> stands for whatever markers the external syntax
  highlighter emits.
\<close>

datatype colour = ToolDiffContext | ToolDiffRemoved | ToolDiffAdded

datatype marker = FgOn colour | FgOff | InverseOn | InverseOff | Syntax nat

datatype tok = Ch jschar | Mark marker

type_synonym styled = "tok list"

definition plain :: "jsstring \<Rightarrow> styled" where
  "plain s = map Ch s"

definition fg :: "colour \<Rightarrow> styled \<Rightarrow> styled" where
  "fg c s = Mark (FgOn c) # s @ [Mark FgOff]"

definition inverse_text :: "styled \<Rightarrow> styled" where
  "inverse_text s = Mark InverseOn # s @ [Mark InverseOff]"

text \<open>Removing the inversion markers, and removing every marker.\<close>

definition stripInverse :: "styled \<Rightarrow> styled" where
  "stripInverse s = filter (\<lambda>t. t \<noteq> Mark InverseOn \<and> t \<noteq> Mark InverseOff) s"

fun stripMarkers :: "styled \<Rightarrow> jsstring" where
  "stripMarkers [] = []"
| "stripMarkers (Ch c # ts) = c # stripMarkers ts"
| "stripMarkers (Mark m # ts) = stripMarkers ts"

section \<open>parseDiffLine\<close>

text \<open>
  \<open>line.match(/^([+-\s])(\s*\d*)\s(.*)$/)\<close>. The three functions below are the
  backtracking search of the matcher for the part after the first character:
  \<open>matchRest\<close> is \<open>\s(.*)$\<close> at a position, \<open>matchDigits\<close> tries \<open>\d*\<close> with
  \<open>j\<close> digits and then with fewer, \<open>matchSpaces\<close> tries \<open>\s*\<close> with \<open>k\<close> code
  units and then with fewer. The class \<open>[+-\s]\<close> is, without the \<open>u\<close> flag, the
  union of \<open>+\<close>, \<open>-\<close> and \<open>\s\<close>.
\<close>

record diffline =
  lineNum :: jsstring
  content :: jsstring

record parsed = diffline +
  prefix :: jschar

fun matchRest :: "jsstring \<Rightarrow> jsstring option" where
  "matchRest [] = None"
| "matchRest (w # cs) =
     (if isWhiteSpace w \<and> list_all (\<lambda>c. \<not> isLineTerminator c) cs then Some cs else None)"

fun matchDigits :: "jsstring \<Rightarrow> jsstring \<Rightarrow> nat \<Rightarrow> (jsstring \<times> jsstring) option" where
  "matchDigits ws s j =
     (case matchRest (drop j s) of
        Some c \<Rightarrow> Some (ws @ take j s, c)
      | None \<Rightarrow> (case j of 0 \<Rightarrow> None | Suc j' \<Rightarrow> matchDigits ws s j'))"

fun matchSpaces :: "jsstring \<Rightarrow> nat \<Rightarrow> (jsstring \<times> jsstring) option" where
  "matchSpaces s k =
     (case matchDigits (take k s) (drop k s) (length (takeWhile isDigit (drop k s))) of
        Some r \<Rightarrow> Some r
      | None \<Rightarrow> (case k of 0 \<Rightarrow> None | Suc k' \<Rightarrow> matchSpaces s k'))"

definition parseDiffLine :: "jsstring \<Rightarrow> parsed option" where
  "parseDiffLine line =
     (case line of
        [] \<Rightarrow> None
      | c # rest \<Rightarrow>
          if c = chPlus \<or> c = chMinus \<or> isWhiteSpace c then
            (case matchSpaces rest (length (takeWhile isWhiteSpace rest)) of
               None \<Rightarrow> None
             | Some (n, t) \<Rightarrow> Some \<lparr>lineNum = n, content = t, prefix = c\<rparr>)
          else None)"

section \<open>highlightLine and replaceTabs\<close>

text \<open>
  The collaborators that are imported from outside: \<open>Diff.diffWords\<close> of the
  \<open>diff\<close> package, and \<open>highlightCode\<close> and \<open>getLanguageFromPath\<close> of the theme
  module. They are parameters of the renderer.
\<close>

record part =
  part_value :: jsstring
  added :: bool
  removed :: bool

record env =
  diffWords :: "jsstring \<Rightarrow> jsstring \<Rightarrow> part list"
  highlightCode :: "jsstring \<Rightarrow> jsstring \<Rightarrow> styled list"
  getLanguageFromPath :: "jsstring \<Rightarrow> jsstring option"

text \<open>
  \<open>if (!lang) return content\<close>: an absent language and the empty string are both
  falsy. \<open>lines[0] ?? content\<close> falls back when the array is empty.
\<close>

definition highlightLine :: "env \<Rightarrow> jsstring \<Rightarrow> jsstring option \<Rightarrow> styled" where
  "highlightLine E cont lang =
     (case lang of
        None \<Rightarrow> plain cont
      | Some l \<Rightarrow>
          if l = [] then plain cont
          else (case highlightCode E cont l of [] \<Rightarrow> plain cont | h # _ \<Rightarrow> h))"

text \<open>\<open>text.replace(/\\t/g, "   ")\<close>: a backslash followed by the letter t.\<close>

fun replaceTabs :: "jsstring \<Rightarrow> jsstring" where
  "replaceTabs (c # d # cs) =
     (if c = chBackslash \<and> d = chT then chSpace # chSpace # chSpace # replaceTabs cs
      else c # replaceTabs (d # cs))"
| "replaceTabs cs = cs"

section \<open>renderIntraLineDiff\<close>

record intra =
  removedLine :: styled
  addedLine :: styled
  isFirstRemoved :: bool
  isFirstAdded :: bool

text \<open>The body of the loop over the parts of the word diff.\<close>

definition intraPart :: "intra \<Rightarrow> part \<Rightarrow> intra" where
  "intraPart st p =
     (if removed p then
        (case (if isFirstRemoved st then
                 (let leadingWs = takeWhile isWhiteSpace (part_value p)
                  in (drop (length leadingWs) (part_value p),
                      st\<lparr>removedLine := removedLine st @ plain leadingWs,
                         isFirstRemoved := False\<rparr>))
               else (part_value p, st)) of
           (v, st') \<Rightarrow>
             if v \<noteq> [] then st'\<lparr>removedLine := removedLine st' @ inverse_text (plain v)\<rparr>
             else st')
      else if added p then
        (case (if isFirstAdded st then
                 (let leadingWs = takeWhile isWhiteSpace (part_value p)
                  in (drop (length leadingWs) (part_value p),
                      st\<lparr>addedLine := addedLine st @ plain leadingWs,
                         isFirstAdded := False\<rparr>))
               else (part_value p, st)) of
           (v, st') \<Rightarrow>
             if v \<noteq> [] then st'\<lparr>addedLine := addedLine st' @ inverse_text (plain v)\<rparr>
             else st')
      else
        st\<lparr>removedLine := removedLine st @ plain (part_value p),
           addedLine := addedLine st @ plain (part_value p)\<rparr>)"

fun intraLoop :: "part list \<Rightarrow> intra \<Rightarrow> intra" where
  "intraLoop [] st = st"
| "intraLoop (p # ps) st = intraLoop ps (intraPart st p)"

definition intraInit :: intra where
  "intraInit = \<lparr>removedLine = [], addedLine = [], isFirstRemoved = True, isFirstAdded = True\<rparr>"

definition renderIntraLineDiff :: "env \<Rightarrow> jsstring \<Rightarrow> jsstring \<Rightarrow> styled \<times> styled" where
  "renderIntraLineDiff E oldContent newContent =
     (let st = intraLoop (diffWords E oldContent newContent) intraInit
      in (removedLine st, addedLine st))"

section \<open>renderDiff\<close>

record renderDiffOptions =
  filePath :: "jsstring option"

text \<open>\<open>diffText.split("\\n")\<close> and \<open>result.join("\\n")\<close>.\<close>

fun splitNewline :: "jsstring \<Rightarrow> jsstring list" where
  "splitNewline [] = [[]]"
| "splitNewline (c # cs) =
     (if c = chNewline then [] # splitNewline cs
      else (case splitNewline cs of [] \<Rightarrow> [[c]] | l # ls \<Rightarrow> (c # l) # ls))"


text \<open>
  The two inner loops that collect consecutive removed lines and consecutive added
  lines differ only in the sign they look for: \<open>collectLines sign lines i acc\<close>
  returns the cursor after the run and the collected lines.
\<close>

function collectLines ::
  "jschar \<Rightarrow> jsstring list \<Rightarrow> nat \<Rightarrow> diffline list \<Rightarrow> nat \<times> diffline list" where
  "collectLines sign lines i acc =
     (if i < length lines then
        (case parseDiffLine (lines ! i) of
           None \<Rightarrow> (i, acc)
         | Some p \<Rightarrow>
             if prefix p \<noteq> sign then (i, acc)
             else collectLines sign lines (i + 1)
                    (acc @ [\<lparr>lineNum = lineNum p, content = content p\<rparr>]))
      else (i, acc))"
  by pat_completeness auto
termination
  by (relation "measure (\<lambda>(sign, lines, i, acc). length lines - i)") auto

text \<open>
  The body of the outer loop at cursor \<open>i\<close> (with \<open>i < lines.length\<close>): the new
  cursor and the lines pushed to \<open>result\<close>.
\<close>

definition renderStep ::
  "env \<Rightarrow> jsstring option \<Rightarrow> jsstring list \<Rightarrow> nat \<Rightarrow> nat \<times> styled list" where
  "renderStep E lang lines i =
     (let line = lines ! i in
      case parseDiffLine line of
        None \<Rightarrow> (i + 1, [fg ToolDiffContext (plain line)])
      | Some p \<Rightarrow>
          if prefix p = chMinus then
            (case collectLines chMinus lines i [] of
               (i1, removedLines) \<Rightarrow>
                 (case collectLines chPlus lines i1 [] of
                    (i2, addedLines) \<Rightarrow>
                      if length removedLines = 1 \<and> length addedLines = 1 then
                        (let rem = removedLines ! 0;
                             add = addedLines ! 0;
                             r = renderIntraLineDiff E (replaceTabs (content rem))
                                   (replaceTabs (content add))
                         in (i2,
                             [fg ToolDiffRemoved
                                (plain (chMinus # lineNum rem @ [chSpace]) @ fst r),
                              fg ToolDiffAdded
                                (plain (chPlus # lineNum add @ [chSpace]) @ snd r)]))
                      else
                        (i2,
                         map (\<lambda>rem. fg ToolDiffRemoved (plain (chMinus # lineNum rem))
                                    @ Ch chSpace
                                    # highlightLine E (replaceTabs (content rem)) lang)
                           removedLines
                         @ map (\<lambda>add. fg ToolDiffAdded (plain (chPlus # lineNum add))
                                      @ Ch chSpace
                                      # highlightLine E (replaceTabs (content add)) lang)
                             addedLines)))
          else if prefix p = chPlus then
            (i + 1,
             [fg ToolDiffAdded (plain (chPlus # lineNum p))
              @ Ch chSpace # highlightLine E (replaceTabs (content p)) lang])
          else
            (i + 1,
             [fg ToolDiffContext (plain (chSpace # lineNum p))
              @ Ch chSpace # highlightLine E (replaceTabs (content p)) lang]))"

text \<open>The cursor never moves backwards in a collecting loop.\<close>

lemma collectLines_mono: "i \<le> fst (collectLines sign lines i acc)"
proof (induction sign lines i acc rule: collectLines.induct)
  case (1 sign lines i acc)
  show ?case
  proof (cases "i < length lines")
    case False
    then show ?thesis by simp
  next
    case True
    show ?thesis
    proof (cases "parseDiffLine (lines ! i)")
      case None
      with True show ?thesis by simp
    next
      case (Some p)
      show ?thesis
      proof (cases "prefix p = sign")
        case False
        with True Some show ?thesis by simp
      next
        case eq: True
        from "1.IH"[OF True Some] eq
        have "i + 1 \<le> fst (collectLines sign lines (i + 1)
               (acc @ [\<lparr>lineNum = lineNum p, content = content p\<rparr>]))" by simp
        with True Some eq show ?thesis by simp
      qed
    qed
  qed
qed

lemma collectLines_bound: "i \<le> length lines \<Longrightarrow> fst (collectLines sign lines i acc) \<le> length lines"
proof (induction sign lines i acc rule: collectLines.induct)
  case (1 sign lines i acc)
  show ?case
  proof (cases "i < length lines")
    case False
    with "1.prems" show ?thesis by simp
  next
    case True
    show ?thesis
    proof (cases "parseDiffLine (lines ! i)")
      case None
      with True show ?thesis by simp
    next
      case (Some p)
      show ?thesis
      proof (cases "prefix p = sign")
        case False
        with True Some show ?thesis by simp
      next
        case eq: True
        from "1.IH"[OF True Some] eq True
        have "fst (collectLines sign lines (i + 1)
               (acc @ [\<lparr>lineNum = lineNum p, content = content p\<rparr>])) \<le> length lines" by simp
        with True Some eq show ?thesis by simp
      qed
    qed
  qed
qed

lemma collectLines_first:
  "i < length lines \<Longrightarrow> parseDiffLine (lines ! i) = Some p \<Longrightarrow> prefix p = sign \<Longrightarrow>
   i < fst (collectLines sign lines i acc)"
  using collectLines_mono[of "i + 1" sign lines "acc @ [\<lparr>lineNum = lineNum p, content = content p\<rparr>]"]
  by simp

lemma renderStep_advance:
  "i < length lines \<Longrightarrow> i < fst (renderStep E lang lines i)"
proof (cases "parseDiffLine (lines ! i)")
  case None
  then show ?thesis by (simp add: renderStep_def)
next
  case (Some p)
  assume lt: "i < length lines"
  show ?thesis
  proof (cases "prefix p = chMinus")
    case False
    with Some show ?thesis by (simp add: renderStep_def)
  next
    case True
    obtain i1 rs where c1: "collectLines chMinus lines i [] = (i1, rs)" by force
    obtain i2 as where c2: "collectLines chPlus lines i1 [] = (i2, as)" by force
    from collectLines_first[OF lt Some True, of "[]"] c1 have "i < i1" by simp
    moreover from collectLines_mono[of i1 chPlus lines "[]"] c2 have "i1 \<le> i2" by simp
    ultimately have "i < i2" by simp
    with Some True c1 c2 show ?thesis by (simp add: renderStep_def Let_def)
  qed
qed

text \<open>
  The outer loop. It terminates because each step moves the cursor forward: a removed
  run starting at a removed line has at least that line.
\<close>

function renderLoop ::
  "env \<Rightarrow> jsstring option \<Rightarrow> jsstring list \<Rightarrow> nat \<Rightarrow> styled list \<Rightarrow> styled list" where
  "renderLoop E lang lines i result =
     (if i < length lines then
        (case renderStep E lang lines i of
           (i', pushed) \<Rightarrow> renderLoop E lang lines i' (result @ pushed))
      else result)"
  by pat_completeness auto
termination
  apply (relation "measure (\<lambda>(E, lang, lines, i, result). length lines - i)")
   apply simp
  subgoal for E lang lines i result i' pushed
    using renderStep_advance[of i lines E lang] by (cases "renderStep E lang lines i") auto
  done

declare matchDigits.simps [simp del] matchSpaces.simps [simp del]
declare collectLines.simps [simp del] renderLoop.simps [simp del]

text \<open>
  \<open>resolveLang\<close> is the constant \<open>lang\<close>: an absent and an empty \<open>filePath\<close>
  are both falsy. \<open>renderLines\<close> runs the loop from cursor 0 with an empty
  \<open>result\<close>; \<open>renderDiffLines\<close> is the array \<open>result\<close> at the end of
  \<open>renderDiff\<close>, and \<open>renderDiff\<close> its join.
\<close>

definition resolveLang :: "env \<Rightarrow> renderDiffOptions \<Rightarrow> jsstring option" where
  "resolveLang E options =
     (case filePath options of
        None \<Rightarrow> None
      | Some fp \<Rightarrow> if fp = [] then None else getLanguageFromPath E fp)"

definition renderLines :: "env \<Rightarrow> jsstring option \<Rightarrow> jsstring list \<Rightarrow> styled list" where
  "renderLines E lang lines = renderLoop E lang lines 0 []"

definition renderDiffLines :: "env \<Rightarrow> jsstring \<Rightarrow> renderDiffOptions \<Rightarrow> styled list" where
  "renderDiffLines E diffText options =
     renderLines E (resolveLang E options) (splitNewline diffText)"


text \<open>
  A concrete set of collaborators for running the renderer on examples: the word diff
  reports the whole old text as removed and the whole new text as added, the
  highlighter returns no lines and no language is ever resolved.
\<close>

definition plainEnv :: env where
  "plainEnv =
     \<lparr>diffWords = (\<lambda>a b. [\<lparr>part_value = a, added = False, removed = True\<rparr>,
                            \<lparr>part_value = b, added = True, removed = False\<rparr>]),
      highlightCode = (\<lambda>c l. []),
      getLanguageFromPath = (\<lambda>p. None)\<rparr>"

section \<open>Vocabulary of the line loop\<close>

text \<open>
  \<open>hasSign sign line\<close>: the line parses and its prefix is \<open>sign\<close>.
  \<open>difflineOf\<close> is the object \<open>{lineNum, content}\<close> that the collecting loops
  push for a line that parses. \<open>blockLine\<close> is the line pushed outside the
  intra-line mode, with the colour and the sign of its category; \<open>intraLines\<close> are
  the two lines pushed in intra-line mode; \<open>rawLine\<close> is the line pushed for a
  line that does not parse.
\<close>

definition hasSign :: "jschar \<Rightarrow> jsstring \<Rightarrow> bool" where
  "hasSign sign line = (case parseDiffLine line of None \<Rightarrow> False | Some p \<Rightarrow> prefix p = sign)"

definition difflineOf :: "jsstring \<Rightarrow> diffline" where
  "difflineOf line =
     (case parseDiffLine line of
        None \<Rightarrow> \<lparr>lineNum = [], content = []\<rparr>
      | Some p \<Rightarrow> \<lparr>lineNum = lineNum p, content = content p\<rparr>)"

definition blockLine :: "env \<Rightarrow> jsstring option \<Rightarrow> colour \<Rightarrow> jschar \<Rightarrow> diffline \<Rightarrow> styled" where
  "blockLine E lang col sign d =
     fg col (plain (sign # lineNum d)) @ Ch chSpace # highlightLine E (replaceTabs (content d)) lang"

definition intraLines :: "env \<Rightarrow> diffline \<Rightarrow> diffline \<Rightarrow> styled list" where
  "intraLines E rem add =
     (let r = renderIntraLineDiff E (replaceTabs (content rem)) (replaceTabs (content add))
      in [fg ToolDiffRemoved (plain (chMinus # lineNum rem @ [chSpace]) @ fst r),
          fg ToolDiffAdded (plain (chPlus # lineNum add @ [chSpace]) @ snd r)])"

definition rawLine :: "jsstring \<Rightarrow> styled" where
  "rawLine line = fg ToolDiffContext (plain line)"

text \<open>
  The line pushed for a line that is neither removed nor added: a raw line when it does
  not parse, a context line otherwise.
\<close>

definition contextLine :: "env \<Rightarrow> jsstring option \<Rightarrow> jsstring \<Rightarrow> styled" where
  "contextLine E lang line =
     (case parseDiffLine line of
        None \<Rightarrow> rawLine line
      | Some p \<Rightarrow> blockLine E lang ToolDiffContext chSpace \<lparr>lineNum = lineNum p, content = content p\<rparr>)"

section \<open>Vocabulary of the word diff\<close>

text \<open>
  The loop of \<open>renderIntraLineDiff\<close> tests \<open>part.removed\<close> first, then
  \<open>part.added\<close>; a part with neither flag is unchanged text. \<open>kindOf\<close> names
  the branch a part takes. \<open>oldText\<close> concatenates the unchanged and removed
  parts, \<open>newText\<close> the unchanged and added parts: the word diff is expected to
  return parts whose \<open>oldText\<close> is the old content and whose \<open>newText\<close> is the
  new content.
\<close>

datatype kind = Unchanged | RemovedOnly | AddedOnly

definition kindOf :: "part \<Rightarrow> kind" where
  "kindOf p = (if removed p then RemovedOnly else if added p then AddedOnly else Unchanged)"

definition oldText :: "part list \<Rightarrow> jsstring" where
  "oldText ps = concat (map part_value (filter (\<lambda>p. kindOf p \<noteq> AddedOnly) ps))"

definition newText :: "part list \<Rightarrow> jsstring" where
  "newText ps = concat (map part_value (filter (\<lambda>p. kindOf p \<noteq> RemovedOnly) ps))"

text \<open>
  What the first differing part of a side contributes to that side's line, in the
  spec's words: its leading white space unhighlighted, then the remainder highlighted,
  unless the remainder is empty. And what any other part contributes to the line of
  \<open>side\<close>: a differing part of that side is highlighted whole (nothing is appended
  for an empty one), unchanged text is appended as it is, a part of the other side
  is skipped.
\<close>

definition strippedFirst :: "jsstring \<Rightarrow> styled" where
  "strippedFirst v =
     plain (takeWhile isWhiteSpace v)
     @ (if dropWhile isWhiteSpace v = [] then []
        else inverse_text (plain (dropWhile isWhiteSpace v)))"

definition laterOn :: "kind \<Rightarrow> part \<Rightarrow> styled" where
  "laterOn side q =
     (if kindOf q = side then
        (if part_value q = [] then [] else inverse_text (plain (part_value q)))
      else if kindOf q = Unchanged then plain (part_value q)
      else [])"

text \<open>
  A word diff of \<open>x  a c\<close> against \<open>x b\<close> with two removed parts, for running
  the highlighter on an example.
\<close>

definition sampleParts :: "part list" where
  "sampleParts =
     [\<lparr>part_value = js ''x'', added = False, removed = False\<rparr>,
      \<lparr>part_value = js ''  a'', added = False, removed = True\<rparr>,
      \<lparr>part_value = js '' b'', added = True, removed = False\<rparr>,
      \<lparr>part_value = js '' c'', added = False, removed = True\<rparr>]"

definition sampleEnv :: env where
  "sampleEnv = plainEnv\<lparr>diffWords := (\<lambda>a b. sampleParts)\<rparr>"

text \<open>
  Inputs for running the renderer: the first two scenarios of the spec, a header line
  that does not parse, and a context line whose marker is a tab.
\<close>

definition sampleDiff :: jsstring where
  "sampleDiff = js '' 1 foo'' @ chNewline # js ''-2 bar'' @ chNewline # js ''+2 baz'' @ chNewline # js '' 3 qux''"

definition blockDiff :: jsstring where
  "blockDiff = js ''-1 a'' @ chNewline # js ''-2 b'' @ chNewline # js ''+1 c''"

definition headerDiff :: jsstring where
  "headerDiff = js ''diff --git a/x b/x''"

definition tabMarkedLine :: jsstring where
  "tabMarkedLine = chTab # js '' '' @ js ''12'' @ chSpace # js ''foo''"


definition tsEnv :: env where
  "tsEnv = plainEnv\<lparr>getLanguageFromPath := (\<lambda>p. Some (js ''typescript''))\<rparr>"

section \<open>The empty input\<close>





section \<open>The intra-line highlighter keeps the text\<close>

lemma drop_takeWhile_length: "drop (length (takeWhile P v)) v = dropWhile P v"
  by (induction v) auto

lemma stripInverse_Nil: "stripInverse [] = []"
  by (simp add: stripInverse_def)

lemma stripInverse_append: "stripInverse (a @ b) = stripInverse a @ stripInverse b"
  by (simp add: stripInverse_def)

lemma stripInverse_plain: "stripInverse (plain s) = plain s"
  by (induction s) (simp_all add: stripInverse_def plain_def)

lemma stripInverse_inverse_text: "stripInverse (inverse_text s) = stripInverse s"
  by (simp add: stripInverse_def inverse_text_def)

lemma plain_Nil: "plain [] = []"
  by (simp add: plain_def)

lemma plain_append: "plain (a @ b) = plain a @ plain b"
  by (simp add: plain_def)

lemma stripMarkers_append: "stripMarkers (a @ b) = stripMarkers a @ stripMarkers b"
  by (induction a rule: stripMarkers.induct) simp_all

lemma stripMarkers_plain: "stripMarkers (plain s) = s"
  by (induction s) (simp_all add: plain_def)

lemma stripMarkers_inverse_text: "stripMarkers (inverse_text s) = stripMarkers s"
  by (simp add: inverse_text_def stripMarkers_append)

lemma stripInverse_first_aux:
  "stripInverse (plain a @ (if d = [] then [] else inverse_text (plain d))) = plain (a @ d)"
  by (simp add: stripInverse_append stripInverse_plain stripInverse_inverse_text
      plain_append plain_Nil stripInverse_Nil)

lemma stripInverse_strippedFirst: "stripInverse (strippedFirst v) = plain v"
  unfolding strippedFirst_def stripInverse_first_aux by simp

lemma stripInverse_laterOn:
  "stripInverse (laterOn side q) = (if kindOf q = side \<or> kindOf q = Unchanged then plain (part_value q) else [])"
  by (simp add: laterOn_def stripInverse_plain stripInverse_inverse_text plain_Nil
      stripInverse_Nil)

text \<open>What one part appends to each line.\<close>

lemma intraPart_removedLine:
  "removedLine (intraPart st p) =
     removedLine st @
       (if kindOf p = RemovedOnly then
          (if isFirstRemoved st then strippedFirst (part_value p) else laterOn RemovedOnly p)
        else laterOn RemovedOnly p)"
  by (simp add: intraPart_def kindOf_def laterOn_def strippedFirst_def Let_def
      drop_takeWhile_length)

lemma intraPart_addedLine:
  "addedLine (intraPart st p) =
     addedLine st @
       (if kindOf p = AddedOnly then
          (if isFirstAdded st then strippedFirst (part_value p) else laterOn AddedOnly p)
        else laterOn AddedOnly p)"
  by (simp add: intraPart_def kindOf_def laterOn_def strippedFirst_def Let_def
      drop_takeWhile_length)

lemma intraPart_isFirstRemoved:
  "isFirstRemoved (intraPart st p) = (isFirstRemoved st \<and> kindOf p \<noteq> RemovedOnly)"
  by (simp add: intraPart_def kindOf_def Let_def)

lemma intraPart_isFirstAdded:
  "isFirstAdded (intraPart st p) = (isFirstAdded st \<and> kindOf p \<noteq> AddedOnly)"
  by (simp add: intraPart_def kindOf_def Let_def)


lemma intraPart_removedLine_strip:
  "stripInverse (removedLine (intraPart st p)) =
     stripInverse (removedLine st) @ (if kindOf p = AddedOnly then [] else plain (part_value p))"
  by (cases "kindOf p")
    (simp_all add: intraPart_removedLine stripInverse_append stripInverse_strippedFirst
      stripInverse_laterOn)

lemma intraPart_addedLine_strip:
  "stripInverse (addedLine (intraPart st p)) =
     stripInverse (addedLine st) @ (if kindOf p = RemovedOnly then [] else plain (part_value p))"
  by (cases "kindOf p")
    (simp_all add: intraPart_addedLine stripInverse_append stripInverse_strippedFirst
      stripInverse_laterOn)

lemma intraLoop_removedLine_strip:
  "stripInverse (removedLine (intraLoop ps st)) = stripInverse (removedLine st) @ plain (oldText ps)"
proof (induction ps arbitrary: st)
  case Nil
  show ?case by (simp add: oldText_def plain_Nil)
next
  case (Cons p ps)
  have "oldText (p # ps) = (if kindOf p = AddedOnly then [] else part_value p) @ oldText ps"
    by (simp add: oldText_def)
  then show ?case
    by (simp add: Cons.IH intraPart_removedLine_strip plain_append plain_Nil)
qed

lemma intraLoop_addedLine_strip:
  "stripInverse (addedLine (intraLoop ps st)) = stripInverse (addedLine st) @ plain (newText ps)"
proof (induction ps arbitrary: st)
  case Nil
  show ?case by (simp add: newText_def plain_Nil)
next
  case (Cons p ps)
  have "newText (p # ps) = (if kindOf p = RemovedOnly then [] else part_value p) @ newText ps"
    by (simp add: newText_def)
  then show ?case
    by (simp add: Cons.IH intraPart_addedLine_strip plain_append plain_Nil)
qed

lemma stripMarkers_stripInverse: "stripMarkers (stripInverse s) = stripMarkers s"
  by (induction s rule: stripMarkers.induct) (simp_all add: stripInverse_def)

text \<open>
  C1: whenever the parts returned by the word diff reproduce the old content (unchanged
  and removed parts) and the new content (unchanged and added parts), removing the
  inversion markers from \<open>removedLine\<close> leaves exactly the old content and removing
  them from \<open>addedLine\<close> leaves exactly the new content. The lines hold no other
  marker, so removing every marker gives the same texts.
\<close>

theorem renderIntraLineDiff_reconstructs:
  assumes "oldText (diffWords E oldContent newContent) = oldContent"
      and "newText (diffWords E oldContent newContent) = newContent"
  shows "stripInverse (fst (renderIntraLineDiff E oldContent newContent)) = plain oldContent
       \<and> stripInverse (snd (renderIntraLineDiff E oldContent newContent)) = plain newContent
       \<and> stripMarkers (fst (renderIntraLineDiff E oldContent newContent)) = oldContent
       \<and> stripMarkers (snd (renderIntraLineDiff E oldContent newContent)) = newContent"
proof -
  let ?st = "intraLoop (diffWords E oldContent newContent) intraInit"
  have r: "stripInverse (removedLine ?st) = plain oldContent"
    using assms(1) by (simp add: intraLoop_removedLine_strip intraInit_def stripInverse_Nil)
  have a: "stripInverse (addedLine ?st) = plain newContent"
    using assms(2) by (simp add: intraLoop_addedLine_strip intraInit_def stripInverse_Nil)
  have "stripMarkers (removedLine ?st) = stripMarkers (stripInverse (removedLine ?st))"
    by (simp add: stripMarkers_stripInverse)
  with r have r': "stripMarkers (removedLine ?st) = oldContent"
    by (simp add: stripMarkers_plain)
  have "stripMarkers (addedLine ?st) = stripMarkers (stripInverse (addedLine ?st))"
    by (simp add: stripMarkers_stripInverse)
  with a have a': "stripMarkers (addedLine ?st) = newContent"
    by (simp add: stripMarkers_plain)
  from r a r' a' show ?thesis
    by (simp add: renderIntraLineDiff_def Let_def)
qed


theorem renderIntraLineDiff_reconstructs_witness:
  "oldText (diffWords plainEnv (js ''a b'') (js ''a c'')) = js ''a b''
   \<and> newText (diffWords plainEnv (js ''a b'') (js ''a c'')) = js ''a c''
   \<and> stripInverse (fst (renderIntraLineDiff plainEnv (js ''a b'') (js ''a c''))) = plain (js ''a b'')
   \<and> stripInverse (snd (renderIntraLineDiff plainEnv (js ''a b'') (js ''a c''))) = plain (js ''a c'')
   \<and> stripMarkers (fst (renderIntraLineDiff plainEnv (js ''a b'') (js ''a c''))) = js ''a b''
   \<and> stripMarkers (snd (renderIntraLineDiff plainEnv (js ''a b'') (js ''a c''))) = js ''a c''"
proof -
  have o: "oldText (diffWords plainEnv (js ''a b'') (js ''a c'')) = js ''a b''"
    by (simp add: plainEnv_def oldText_def kindOf_def)
  have n: "newText (diffWords plainEnv (js ''a b'') (js ''a c'')) = js ''a c''"
    by (simp add: plainEnv_def newText_def kindOf_def)
  from o n renderIntraLineDiff_reconstructs[OF o n] show ?thesis by simp
qed

section \<open>Leading white space is set aside once per side\<close>

lemma intraLoop_append: "intraLoop (xs @ ys) st = intraLoop ys (intraLoop xs st)"
  by (induction xs arbitrary: st) simp_all

lemma intraLoop_removed_later:
  "\<not> isFirstRemoved st \<Longrightarrow>
   removedLine (intraLoop ps st) = removedLine st @ concat (map (laterOn RemovedOnly) ps)"
proof (induction ps arbitrary: st)
  case Nil
  show ?case by simp
next
  case (Cons p ps)
  from Cons.prems have "\<not> isFirstRemoved (intraPart st p)"
    by (simp add: intraPart_isFirstRemoved)
  from Cons.IH[OF this] Cons.prems show ?case
    by (simp add: intraPart_removedLine)
qed

lemma intraLoop_added_later:
  "\<not> isFirstAdded st \<Longrightarrow>
   addedLine (intraLoop ps st) = addedLine st @ concat (map (laterOn AddedOnly) ps)"
proof (induction ps arbitrary: st)
  case Nil
  show ?case by simp
next
  case (Cons p ps)
  from Cons.prems have "\<not> isFirstAdded (intraPart st p)"
    by (simp add: intraPart_isFirstAdded)
  from Cons.IH[OF this] Cons.prems show ?case
    by (simp add: intraPart_addedLine)
qed

lemma intraLoop_removed_before:
  "\<forall>u\<in>set us. kindOf u \<noteq> RemovedOnly \<Longrightarrow>
   removedLine (intraLoop us st) = removedLine st @ concat (map (laterOn RemovedOnly) us)
   \<and> isFirstRemoved (intraLoop us st) = isFirstRemoved st"
proof (induction us arbitrary: st)
  case Nil
  show ?case by simp
next
  case (Cons u us)
  from Cons.prems have k: "kindOf u \<noteq> RemovedOnly" and rest: "\<forall>u\<in>set us. kindOf u \<noteq> RemovedOnly"
    by simp_all
  from Cons.IH[OF rest, of "intraPart st u"] k show ?case
    by (simp add: intraPart_removedLine intraPart_isFirstRemoved)
qed

lemma intraLoop_added_before:
  "\<forall>u\<in>set us. kindOf u \<noteq> AddedOnly \<Longrightarrow>
   addedLine (intraLoop us st) = addedLine st @ concat (map (laterOn AddedOnly) us)
   \<and> isFirstAdded (intraLoop us st) = isFirstAdded st"
proof (induction us arbitrary: st)
  case Nil
  show ?case by simp
next
  case (Cons u us)
  from Cons.prems have k: "kindOf u \<noteq> AddedOnly" and rest: "\<forall>u\<in>set us. kindOf u \<noteq> AddedOnly"
    by simp_all
  from Cons.IH[OF rest, of "intraPart st u"] k show ?case
    by (simp add: intraPart_addedLine intraPart_isFirstAdded)
qed

lemma removedLine_first:
  assumes "\<forall>u\<in>set us. kindOf u \<noteq> RemovedOnly" and "kindOf p = RemovedOnly"
  shows "removedLine (intraLoop (us @ p # rest) intraInit) =
           concat (map (laterOn RemovedOnly) us) @ strippedFirst (part_value p)
           @ concat (map (laterOn RemovedOnly) rest)"
proof -
  let ?s1 = "intraLoop us intraInit"
  from intraLoop_removed_before[OF assms(1), of intraInit]
  have l1: "removedLine ?s1 = concat (map (laterOn RemovedOnly) us)" and f1: "isFirstRemoved ?s1"
    by (simp_all add: intraInit_def)
  have nf: "\<not> isFirstRemoved (intraPart ?s1 p)"
    using assms(2) by (simp add: intraPart_isFirstRemoved)
  have "removedLine (intraLoop (us @ p # rest) intraInit)
        = removedLine (intraLoop rest (intraPart ?s1 p))"
    by (simp add: intraLoop_append)
  also have "\<dots> = removedLine (intraPart ?s1 p) @ concat (map (laterOn RemovedOnly) rest)"
    by (rule intraLoop_removed_later[OF nf])
  also have "removedLine (intraPart ?s1 p) = removedLine ?s1 @ strippedFirst (part_value p)"
    using assms(2) f1 by (simp add: intraPart_removedLine)
  finally show ?thesis using l1 by simp
qed

lemma addedLine_first:
  assumes "\<forall>u\<in>set us. kindOf u \<noteq> AddedOnly" and "kindOf p = AddedOnly"
  shows "addedLine (intraLoop (us @ p # rest) intraInit) =
           concat (map (laterOn AddedOnly) us) @ strippedFirst (part_value p)
           @ concat (map (laterOn AddedOnly) rest)"
proof -
  let ?s1 = "intraLoop us intraInit"
  from intraLoop_added_before[OF assms(1), of intraInit]
  have l1: "addedLine ?s1 = concat (map (laterOn AddedOnly) us)" and f1: "isFirstAdded ?s1"
    by (simp_all add: intraInit_def)
  have nf: "\<not> isFirstAdded (intraPart ?s1 p)"
    using assms(2) by (simp add: intraPart_isFirstAdded)
  have "addedLine (intraLoop (us @ p # rest) intraInit)
        = addedLine (intraLoop rest (intraPart ?s1 p))"
    by (simp add: intraLoop_append)
  also have "\<dots> = addedLine (intraPart ?s1 p) @ concat (map (laterOn AddedOnly) rest)"
    by (rule intraLoop_added_later[OF nf])
  also have "addedLine (intraPart ?s1 p) = addedLine ?s1 @ strippedFirst (part_value p)"
    using assms(2) f1 by (simp add: intraPart_addedLine)
  finally show ?thesis using l1 by simp
qed

text \<open>
  C3: let \<open>p\<close> be the first removed part of the word diff, after the parts \<open>us\<close>
  and before the parts \<open>rest\<close>. Then \<open>removedLine\<close> is the unchanged text of
  \<open>us\<close>, then the leading white space of \<open>p\<close> unhighlighted and the remainder
  of \<open>p\<close> highlighted (nothing when the remainder is empty), then for every part of
  \<open>rest\<close> its whole text highlighted when it is a removed part, with its white
  space, and as it is when it is unchanged. This holds whether or not \<open>p\<close> starts
  with white space. The same holds for the first added part and \<open>addedLine\<close>.
\<close>

theorem leading_whitespace_stripped_once:
  assumes "diffWords E oldContent newContent = us @ p # rest"
  shows "(kindOf p = RemovedOnly \<and> (\<forall>u\<in>set us. kindOf u \<noteq> RemovedOnly) \<longrightarrow>
            fst (renderIntraLineDiff E oldContent newContent) =
              concat (map (laterOn RemovedOnly) us) @ strippedFirst (part_value p)
              @ concat (map (laterOn RemovedOnly) rest))
       \<and> (kindOf p = AddedOnly \<and> (\<forall>u\<in>set us. kindOf u \<noteq> AddedOnly) \<longrightarrow>
            snd (renderIntraLineDiff E oldContent newContent) =
              concat (map (laterOn AddedOnly) us) @ strippedFirst (part_value p)
              @ concat (map (laterOn AddedOnly) rest))"
  using assms by (simp add: renderIntraLineDiff_def Let_def removedLine_first addedLine_first)


theorem leading_whitespace_stripped_once_witness:
  "fst (renderIntraLineDiff sampleEnv (js ''x  a c'') (js ''x b'')) =
     plain (js ''x  '') @ inverse_text (plain (js ''a'')) @ inverse_text (plain (js '' c''))
   \<and> snd (renderIntraLineDiff sampleEnv (js ''x  a c'') (js ''x b'')) =
     plain (js ''x '') @ inverse_text (plain (js ''b''))"
proof -
  let ?u = "\<lparr>part_value = js ''x'', added = False, removed = False\<rparr>"
  let ?r1 = "\<lparr>part_value = js ''  a'', added = False, removed = True\<rparr>"
  let ?a1 = "\<lparr>part_value = js '' b'', added = True, removed = False\<rparr>"
  let ?r2 = "\<lparr>part_value = js '' c'', added = False, removed = True\<rparr>"
  have d1: "diffWords sampleEnv (js ''x  a c'') (js ''x b'') = [?u] @ ?r1 # [?a1, ?r2]"
    by (simp add: sampleEnv_def sampleParts_def)
  have d2: "diffWords sampleEnv (js ''x  a c'') (js ''x b'') = [?u, ?r1] @ ?a1 # [?r2]"
    by (simp add: sampleEnv_def sampleParts_def)
  from leading_whitespace_stripped_once[OF d1] leading_whitespace_stripped_once[OF d2]
  show ?thesis
    by (simp add: kindOf_def laterOn_def strippedFirst_def js_def isWhiteSpace_def plain_def)
qed

section \<open>Facts about replaceTabs, the parser and highlightLine\<close>



lemma replaceTabs_escape:
  "replaceTabs (chBackslash # chT # r) = chSpace # chSpace # chSpace # replaceTabs r"
  by simp







lemma matchDigits_complete:
  "j0 \<le> j \<Longrightarrow> matchRest (drop j0 s) \<noteq> None \<Longrightarrow> matchDigits pre s j \<noteq> None"
proof (induction j)
  case 0
  then show ?case by (subst matchDigits.simps) (auto split: option.splits)
next
  case (Suc j)
  show ?case
  proof (cases "j0 = Suc j")
    case True
    with Suc.prems show ?thesis by (subst matchDigits.simps) (auto split: option.splits)
  next
    case False
    with Suc.prems have "j0 \<le> j" by simp
    from Suc.IH[OF this Suc.prems(2)] show ?thesis
      by (subst matchDigits.simps) (auto split: option.splits)
  qed
qed

lemma matchSpaces_complete:
  "k0 \<le> k \<Longrightarrow>
   matchDigits (take k0 s) (drop k0 s) (length (takeWhile isDigit (drop k0 s))) \<noteq> None \<Longrightarrow>
   matchSpaces s k \<noteq> None"
proof (induction k)
  case 0
  then show ?case by (subst matchSpaces.simps) (auto split: option.splits)
next
  case (Suc k)
  show ?case
  proof (cases "k0 = Suc k")
    case True
    with Suc.prems show ?thesis
      by (subst matchSpaces.simps) (auto split: option.splits)
  next
    case False
    with Suc.prems have "k0 \<le> k" by simp
    from Suc.IH[OF this Suc.prems(2)] show ?thesis
      by (subst matchSpaces.simps) (auto split: option.splits)
  qed
qed

lemma takeWhile_all_prefix:
  "list_all P xs \<Longrightarrow> length xs \<le> length (takeWhile P (xs @ ys))"
  by (induction xs) simp_all

lemma takeWhile_digits_then_space:
  "list_all isDigit ds \<Longrightarrow> takeWhile isDigit (ds @ chSpace # r) = ds"
  by (induction ds) (simp_all add: isDigit_def chSpace_def)

lemma isWhiteSpace_chSpace: "isWhiteSpace chSpace"
  by (simp add: isWhiteSpace_def chSpace_def)

lemma isWhiteSpace_not_sign: "isWhiteSpace w \<Longrightarrow> w \<noteq> chPlus \<and> w \<noteq> chMinus"
  by (auto simp: isWhiteSpace_def chPlus_def chMinus_def)

lemma parseDiffLine_prefix:
  "parseDiffLine line = Some p \<Longrightarrow> line \<noteq> [] \<and> prefix p = hd line"
  by (auto simp: parseDiffLine_def split: list.splits if_splits option.splits)

lemma parseDiffLine_accepts:
  assumes m: "c = chPlus \<or> c = chMinus \<or> isWhiteSpace c"
      and ws: "list_all isWhiteSpace ws"
      and ds: "list_all isDigit ds"
      and r: "list_all (\<lambda>c. \<not> isLineTerminator c) rest"
  shows "\<exists>p. parseDiffLine (c # ws @ ds @ chSpace # rest) = Some p \<and> prefix p = c"
proof -
  let ?s = "ws @ ds @ chSpace # rest"
  have "matchRest (chSpace # rest) \<noteq> None"
    using r by (simp add: isWhiteSpace_chSpace)
  then have "matchDigits (take (length ws) ?s) (drop (length ws) ?s)
               (length (takeWhile isDigit (drop (length ws) ?s))) \<noteq> None"
    using matchDigits_complete[of "length ds" "length ds" "ds @ chSpace # rest" ws]
    by (simp add: takeWhile_digits_then_space[OF ds])
  moreover have "length ws \<le> length (takeWhile isWhiteSpace ?s)"
    by (rule takeWhile_all_prefix[OF ws])
  ultimately have "matchSpaces ?s (length (takeWhile isWhiteSpace ?s)) \<noteq> None"
    by (rule matchSpaces_complete[rotated])
  then obtain n t where "matchSpaces ?s (length (takeWhile isWhiteSpace ?s)) = Some (n, t)"
    by auto
  with m show ?thesis
    by (simp add: parseDiffLine_def)
qed

lemma highlightLine_None: "highlightLine E c None = plain c"
  by (simp add: highlightLine_def)

lemma highlightLine_empty_lang: "highlightLine E c (Some []) = plain c"
  by (simp add: highlightLine_def)

lemma highlightLine_empty_result:
  "highlightCode E c l = [] \<Longrightarrow> highlightLine E c (Some l) = plain c"
  by (simp add: highlightLine_def)

section \<open>The collecting loops and the outer loop\<close>

lemma collectLines_takeWhile:
  "collectLines sign lines i acc =
     (i + length (takeWhile (hasSign sign) (drop i lines)),
      acc @ map difflineOf (takeWhile (hasSign sign) (drop i lines)))"
proof (induction sign lines i acc rule: collectLines.induct)
  case (1 sign lines i acc)
  show ?case
  proof (cases "i < length lines")
    case False
    then show ?thesis by (subst collectLines.simps) simp
  next
    case True
    then have d: "drop i lines = lines ! i # drop (Suc i) lines"
      by (simp add: Cons_nth_drop_Suc)
    show ?thesis
    proof (cases "parseDiffLine (lines ! i)")
      case None
      then have "\<not> hasSign sign (lines ! i)" by (simp add: hasSign_def)
      with None True d show ?thesis by (subst collectLines.simps) simp
    next
      case (Some p)
      show ?thesis
      proof (cases "prefix p = sign")
        case False
        with Some have "\<not> hasSign sign (lines ! i)" by (simp add: hasSign_def)
        with False Some True d show ?thesis by (subst collectLines.simps) simp
      next
        case eq: True
        have hs: "hasSign sign (lines ! i)"
          and dl: "difflineOf (lines ! i) = \<lparr>lineNum = lineNum p, content = content p\<rparr>"
          using Some eq by (simp_all add: hasSign_def difflineOf_def)
        have "collectLines sign lines i acc =
              collectLines sign lines (i + 1) (acc @ [\<lparr>lineNum = lineNum p, content = content p\<rparr>])"
          using True Some eq by (subst collectLines.simps) simp
        also have "\<dots> = (i + 1 + length (takeWhile (hasSign sign) (drop (i + 1) lines)),
                 (acc @ [\<lparr>lineNum = lineNum p, content = content p\<rparr>])
                   @ map difflineOf (takeWhile (hasSign sign) (drop (i + 1) lines)))"
          using "1.IH"[OF True Some] eq by simp
        finally show ?thesis
          using d hs dl by simp
      qed
    qed
  qed
qed

lemma hasSign_exclusive: "hasSign chMinus l \<Longrightarrow> \<not> hasSign chPlus l"
  by (auto simp: hasSign_def chMinus_def chPlus_def split: option.splits)

lemma renderStep_raw:
  "parseDiffLine (lines ! i) = None \<Longrightarrow> renderStep E lang lines i = (i + 1, [rawLine (lines ! i)])"
  by (simp add: renderStep_def rawLine_def)

lemma renderStep_added:
  "parseDiffLine (lines ! i) = Some p \<Longrightarrow> prefix p = chPlus \<Longrightarrow>
   renderStep E lang lines i =
     (i + 1, [blockLine E lang ToolDiffAdded chPlus \<lparr>lineNum = lineNum p, content = content p\<rparr>])"
  by (simp add: renderStep_def blockLine_def chMinus_def chPlus_def)

lemma renderStep_context:
  "parseDiffLine (lines ! i) = Some p \<Longrightarrow> prefix p \<noteq> chPlus \<Longrightarrow> prefix p \<noteq> chMinus \<Longrightarrow>
   renderStep E lang lines i =
     (i + 1, [blockLine E lang ToolDiffContext chSpace \<lparr>lineNum = lineNum p, content = content p\<rparr>])"
  by (simp add: renderStep_def blockLine_def)

lemma renderStep_removed:
  assumes "hasSign chMinus (lines ! i)"
  shows "renderStep E lang lines i =
     (let rs = takeWhile (hasSign chMinus) (drop i lines);
          as = takeWhile (hasSign chPlus) (drop (i + length rs) lines)
      in (i + length rs + length as,
          if length rs = 1 \<and> length as = 1
          then intraLines E (difflineOf (hd rs)) (difflineOf (hd as))
          else map (blockLine E lang ToolDiffRemoved chMinus) (map difflineOf rs)
               @ map (blockLine E lang ToolDiffAdded chPlus) (map difflineOf as)))"
proof -
  from assms obtain p where p: "parseDiffLine (lines ! i) = Some p" "prefix p = chMinus"
    by (auto simp: hasSign_def split: option.splits)
  define rs where "rs = takeWhile (hasSign chMinus) (drop i lines)"
  define as where "as = takeWhile (hasSign chPlus) (drop (i + length rs) lines)"
  have c1: "collectLines chMinus lines i [] = (i + length rs, map difflineOf rs)"
    by (simp add: collectLines_takeWhile rs_def)
  have c2: "collectLines chPlus lines (i + length rs) [] = (i + length rs + length as, map difflineOf as)"
    by (simp add: collectLines_takeWhile as_def)
  have "renderStep E lang lines i =
     (i + length rs + length as,
          if length rs = 1 \<and> length as = 1
          then intraLines E (difflineOf (hd rs)) (difflineOf (hd as))
          else map (blockLine E lang ToolDiffRemoved chMinus) (map difflineOf rs)
               @ map (blockLine E lang ToolDiffAdded chPlus) (map difflineOf as))"
  proof (cases "length rs = 1 \<and> length as = 1")
    case True
    then obtain r a where ra: "rs = [r]" "as = [a]"
      by (cases rs; cases as) auto
    show ?thesis
      unfolding renderStep_def
      using p c1 c2 by (simp add: ra intraLines_def Let_def)
  next
    case False
    then have nf: "\<not> (length (map difflineOf rs) = 1 \<and> length (map difflineOf as) = 1)"
      by simp
    have bl: "(\<lambda>rem. fg ToolDiffRemoved (plain (chMinus # lineNum rem)) @ Ch chSpace
                     # highlightLine E (replaceTabs (content rem)) lang)
              = blockLine E lang ToolDiffRemoved chMinus"
             "(\<lambda>add. fg ToolDiffAdded (plain (chPlus # lineNum add)) @ Ch chSpace
                     # highlightLine E (replaceTabs (content add)) lang)
              = blockLine E lang ToolDiffAdded chPlus"
      by (simp_all add: blockLine_def fun_eq_iff)
    show ?thesis
      unfolding renderStep_def Let_def p option.case c1 c2 prod.case bl
      using nf False by (simp only: if_True if_False simp_thms)
  qed
  from this[unfolded as_def rs_def] show ?thesis by (simp only: Let_def)
qed


lemma unsigned_cases:
  assumes "\<not> hasSign chMinus l"
  obtains "parseDiffLine l = None"
    | p where "parseDiffLine l = Some p" "prefix p = chPlus"
    | p where "parseDiffLine l = Some p" "prefix p \<noteq> chPlus" "prefix p \<noteq> chMinus"
  using assms by (cases "parseDiffLine l") (auto simp: hasSign_def)

lemma takeWhile_drop_bound: "i + length (takeWhile P (drop i xs)) \<le> max i (length xs)"
proof -
  have "length (takeWhile P (drop i xs)) \<le> length (drop i xs)"
    by (rule length_takeWhile_le)
  then show ?thesis by simp
qed

lemma renderStep_count:
  assumes "i < length lines"
  shows "i < fst (renderStep E lang lines i)
       \<and> fst (renderStep E lang lines i) \<le> length lines
       \<and> length (snd (renderStep E lang lines i)) = fst (renderStep E lang lines i) - i"
proof (cases "hasSign chMinus (lines ! i)")
  case True
  define rs where "rs = takeWhile (hasSign chMinus) (drop i lines)"
  define as where "as = takeWhile (hasSign chPlus) (drop (i + length rs) lines)"
  from assms have d: "drop i lines = lines ! i # drop (Suc i) lines"
    by (simp add: Cons_nth_drop_Suc)
  with True have pos: "0 < length rs" by (simp add: rs_def)
  have b1: "i + length rs \<le> length lines"
    using takeWhile_drop_bound[of i "hasSign chMinus" lines] assms by (simp add: rs_def)
  have b2: "i + length rs + length as \<le> length lines"
    using takeWhile_drop_bound[of "i + length rs" "hasSign chPlus" lines] b1 by (simp add: as_def)
  have "renderStep E lang lines i =
     (i + length rs + length as,
          if length rs = 1 \<and> length as = 1
          then intraLines E (difflineOf (hd rs)) (difflineOf (hd as))
          else map (blockLine E lang ToolDiffRemoved chMinus) (map difflineOf rs)
               @ map (blockLine E lang ToolDiffAdded chPlus) (map difflineOf as))"
    using renderStep_removed[OF True, of E lang] by (simp only: Let_def rs_def as_def)
  with pos b2 show ?thesis by (auto simp: intraLines_def Let_def)
next
  case False
  then show ?thesis
    using assms
    by (cases rule: unsigned_cases)
      (simp_all add: renderStep_raw renderStep_added renderStep_context)
qed

lemma renderStep_drop:
  assumes "i < length lines"
  shows "renderStep E lang lines i =
           (i + fst (renderStep E lang (drop i lines) 0), snd (renderStep E lang (drop i lines) 0))"
proof -
  from assms have n: "drop i lines ! 0 = lines ! i" by simp
  show ?thesis
  proof (cases "hasSign chMinus (lines ! i)")
    case True
    with n have T0: "hasSign chMinus (drop i lines ! 0)" by simp
    show ?thesis
      by (simp add: renderStep_removed[OF True] renderStep_removed[OF T0] Let_def add.commute)
  next
    case False
    then show ?thesis
    proof (cases rule: unsigned_cases)
      case 1
      with n show ?thesis by (simp add: renderStep_raw)
    next
      case (2 p)
      with n show ?thesis by (simp add: renderStep_added)
    next
      case (3 p)
      with n show ?thesis by (simp add: renderStep_context)
    qed
  qed
qed

lemma renderLoop_unfold:
  "i < length lines \<Longrightarrow>
   renderLoop E lang lines i res =
     renderLoop E lang lines (fst (renderStep E lang lines i)) (res @ snd (renderStep E lang lines i))"
  by (subst renderLoop.simps) (simp add: case_prod_beta)

lemma renderLoop_done: "\<not> i < length lines \<Longrightarrow> renderLoop E lang lines i res = res"
  by (subst renderLoop.simps) simp

lemma renderLoop_acc:
  "renderLoop E lang lines i res = res @ renderLoop E lang lines i []"
proof (induction "length lines - i" arbitrary: i res rule: less_induct)
  case less
  show ?case
  proof (cases "i < length lines")
    case False
    then show ?thesis by (simp add: renderLoop_done)
  next
    case True
    let ?i' = "fst (renderStep E lang lines i)" and ?out = "snd (renderStep E lang lines i)"
    from renderStep_count[OF True, of E lang] True
    have m: "length lines - ?i' < length lines - i" by arith
    have "renderLoop E lang lines i res = (res @ ?out) @ renderLoop E lang lines ?i' []"
      using less[OF m, of "res @ ?out"] by (simp add: renderLoop_unfold[OF True])
    moreover have "renderLoop E lang lines i [] = ?out @ renderLoop E lang lines ?i' []"
      using less[OF m, of "?out"] by (simp add: renderLoop_unfold[OF True])
    ultimately show ?thesis by simp
  qed
qed

lemma renderLoop_drop:
  "i \<le> length lines \<Longrightarrow> renderLoop E lang lines i [] = renderLines E lang (drop i lines)"
proof (induction "length lines - i" arbitrary: lines i rule: less_induct)
  case less
  show ?case
  proof (cases "i < length lines")
    case False
    with less.prems show ?thesis by (simp add: renderLoop_done renderLines_def)
  next
    case True
    let ?d = "drop i lines"
    let ?n = "fst (renderStep E lang ?d 0)" and ?out = "snd (renderStep E lang ?d 0)"
    from True have dpos: "0 < length ?d" by simp
    from renderStep_count[OF dpos, of E lang]
    have n: "0 < ?n" "?n \<le> length ?d" by simp_all
    have st: "renderStep E lang lines i = (i + ?n, ?out)"
      by (rule renderStep_drop[OF True])
    have m1: "length lines - (i + ?n) < length lines - i" using n True by simp
    have le1: "i + ?n \<le> length lines" using n by simp
    have m2: "length ?d - ?n < length lines - i" using n True by simp
    have "renderLoop E lang lines i [] = ?out @ renderLoop E lang lines (i + ?n) []"
      using renderLoop_acc[of E lang lines "i + ?n" ?out]
      by (simp add: renderLoop_unfold[OF True] st)
    also have "renderLoop E lang lines (i + ?n) [] = renderLines E lang (drop (i + ?n) lines)"
      by (rule less(1)[OF m1 le1])
    finally have lhs: "renderLoop E lang lines i [] = ?out @ renderLines E lang (drop (i + ?n) lines)" .
    have "renderLines E lang ?d = ?out @ renderLoop E lang ?d ?n []"
      using renderLoop_acc[of E lang ?d ?n ?out]
      by (simp add: renderLines_def renderLoop_unfold[OF dpos])
    also have "renderLoop E lang ?d ?n [] = renderLines E lang (drop ?n ?d)"
      by (rule less(1)[OF m2 n(2)])
    finally have rhs: "renderLines E lang ?d = ?out @ renderLines E lang (drop (i + ?n) lines)"
      by (simp add: add.commute)
    from lhs rhs show ?thesis by simp
  qed
qed

lemma renderLines_Nil: "renderLines E lang [] = []"
  by (simp add: renderLines_def renderLoop_done)

lemma renderLines_step:
  assumes "lines \<noteq> []"
  shows "renderLines E lang lines =
           snd (renderStep E lang lines 0)
           @ renderLines E lang (drop (fst (renderStep E lang lines 0)) lines)"
proof -
  from assms have pos: "0 < length lines" by simp
  let ?n = "fst (renderStep E lang lines 0)" and ?out = "snd (renderStep E lang lines 0)"
  from renderStep_count[OF pos, of E lang] have n: "?n \<le> length lines" by simp
  have "renderLines E lang lines = ?out @ renderLoop E lang lines ?n []"
    using renderLoop_acc[of E lang lines ?n ?out]
    by (simp add: renderLines_def renderLoop_unfold[OF pos])
  then show ?thesis by (simp add: renderLoop_drop[OF n])
qed

lemma length_renderLines: "length (renderLines E lang lines) = length lines"
proof (induction "length lines" arbitrary: lines rule: less_induct)
  case less
  show ?case
  proof (cases "lines = []")
    case True
    then show ?thesis by (simp add: renderLines_Nil)
  next
    case False
    then have pos: "0 < length lines" by simp
    let ?n = "fst (renderStep E lang lines 0)" and ?out = "snd (renderStep E lang lines 0)"
    from renderStep_count[OF pos, of E lang]
    have n: "0 < ?n" "?n \<le> length lines" "length ?out = ?n" by simp_all
    then have "length (drop ?n lines) < length lines" using pos by simp
    from less[OF this] n show ?thesis
      by (simp add: renderLines_step[OF False])
  qed
qed

lemma removed_block_signed:
  assumes "hasSign chMinus (lines ! 0)" and "k < fst (renderStep E lang lines 0)"
  shows "hasSign chMinus (lines ! k) \<or> hasSign chPlus (lines ! k)"
proof -
  define rs where "rs = takeWhile (hasSign chMinus) lines"
  define as where "as = takeWhile (hasSign chPlus) (drop (length rs) lines)"
  have n: "fst (renderStep E lang lines 0) = length rs + length as"
    using renderStep_removed[OF assms(1), of E lang] by (simp add: Let_def rs_def as_def)
  show ?thesis
  proof (cases "k < length rs")
    case True
    then have "lines ! k = rs ! k" by (simp add: rs_def takeWhile_nth)
    moreover from True have "rs ! k \<in> set rs" by simp
    then have "hasSign chMinus (rs ! k)" unfolding rs_def by (rule set_takeWhileD[THEN conjunct2])
    ultimately show ?thesis by simp
  next
    case False
    with assms(2) n have k: "k - length rs < length as" by simp
    have le: "length rs \<le> length lines" unfolding rs_def by (rule length_takeWhile_le)
    from k have "drop (length rs) lines ! (k - length rs) = as ! (k - length rs)"
      by (simp add: as_def takeWhile_nth)
    moreover have "drop (length rs) lines ! (k - length rs) = lines ! k"
      using False le by simp
    moreover from k have "as ! (k - length rs) \<in> set as" by simp
    then have "hasSign chPlus (as ! (k - length rs))"
      unfolding as_def by (rule set_takeWhileD[THEN conjunct2])
    ultimately show ?thesis by simp
  qed
qed

lemma renderLines_nth_context:
  "k < length lines \<Longrightarrow> \<not> hasSign chMinus (lines ! k) \<Longrightarrow> \<not> hasSign chPlus (lines ! k) \<Longrightarrow>
   renderLines E lang lines ! k = contextLine E lang (lines ! k)"
proof (induction "length lines" arbitrary: lines k rule: less_induct)
  case less
  from less.prems(1) have ne: "lines \<noteq> []" and pos: "0 < length lines" by auto
  let ?n = "fst (renderStep E lang lines 0)" and ?out = "snd (renderStep E lang lines 0)"
  from renderStep_count[OF pos, of E lang]
  have n: "0 < ?n" "?n \<le> length lines" "length ?out = ?n" by simp_all
  have unf: "renderLines E lang lines = ?out @ renderLines E lang (drop ?n lines)"
    by (rule renderLines_step[OF ne])
  show ?case
  proof (cases "k < ?n")
    case True
    have nm: "\<not> hasSign chMinus (lines ! 0)"
    proof
      assume "hasSign chMinus (lines ! 0)"
      from removed_block_signed[OF this True] less.prems show False by simp
    qed
    from nm have n1: "?n = 1"
      by (cases rule: unsigned_cases)
        (simp_all add: renderStep_raw renderStep_added renderStep_context)
    with True have k0: "k = 0" by simp
    with less.prems have np: "\<not> hasSign chPlus (lines ! 0)" by simp
    from nm have "?out = [contextLine E lang (lines ! 0)]"
    proof (cases rule: unsigned_cases)
      case 1
      then show ?thesis by (simp add: renderStep_raw contextLine_def)
    next
      case (2 p)
      with np show ?thesis by (simp add: hasSign_def)
    next
      case (3 p)
      then show ?thesis by (simp add: renderStep_context contextLine_def)
    qed
    with k0 show ?thesis by (simp add: unf)
  next
    case False
    have sh: "length (drop ?n lines) < length lines" using n pos by simp
    have k': "k - ?n < length (drop ?n lines)" using False less.prems(1) by simp
    have e: "drop ?n lines ! (k - ?n) = lines ! k" using False n less.prems(1) by simp
    from less.hyps[OF sh k'] less.prems e
    have "renderLines E lang (drop ?n lines) ! (k - ?n) = contextLine E lang (lines ! k)" by simp
    with False n show ?thesis by (simp add: unf nth_append)
  qed
qed


section \<open>Evaluating the examples\<close>

lemmas eval_chars = js_def chPlus_def chMinus_def chSpace_def chNewline_def chTab_def
  chBackslash_def chT_def isWhiteSpace_def isDigit_def isLineTerminator_def

lemmas eval_parse = parseDiffLine_def matchSpaces.simps matchDigits.simps hasSign_def
  difflineOf_def

lemma split_sampleDiff:
  "splitNewline sampleDiff = [js '' 1 foo'', js ''-2 bar'', js ''+2 baz'', js '' 3 qux'']"
  by (simp add: sampleDiff_def eval_chars)

lemma split_blockDiff:
  "splitNewline blockDiff = [js ''-1 a'', js ''-2 b'', js ''+1 c'']"
  by (simp add: blockDiff_def eval_chars)

lemma parse_samples:
  "parseDiffLine (js '' 1 foo'') = Some \<lparr>lineNum = js ''1'', content = js ''foo'', prefix = chSpace\<rparr>"
  "parseDiffLine (js ''-2 bar'') = Some \<lparr>lineNum = js ''2'', content = js ''bar'', prefix = chMinus\<rparr>"
  "parseDiffLine (js ''+2 baz'') = Some \<lparr>lineNum = js ''2'', content = js ''baz'', prefix = chPlus\<rparr>"
  "parseDiffLine (js '' 3 qux'') = Some \<lparr>lineNum = js ''3'', content = js ''qux'', prefix = chSpace\<rparr>"
  "parseDiffLine (js ''-1 a'') = Some \<lparr>lineNum = js ''1'', content = js ''a'', prefix = chMinus\<rparr>"
  "parseDiffLine (js ''-2 b'') = Some \<lparr>lineNum = js ''2'', content = js ''b'', prefix = chMinus\<rparr>"
  "parseDiffLine (js ''+1 c'') = Some \<lparr>lineNum = js ''1'', content = js ''c'', prefix = chPlus\<rparr>"
  by (simp_all add: eval_parse eval_chars)

lemma stripMarkers_fg: "stripMarkers (fg c s) = stripMarkers s"
  by (simp add: fg_def stripMarkers_append)

section \<open>One rendered line per input line\<close>

text \<open>
  C5: the number of rendered lines is the number of lines of the input split on
  newline. Each step of the loop pushes as many lines as it moves the cursor: one for
  a raw, context or added line, and for a removed line the length of the removed run
  plus the length of the added run (which is 2 in intra-line mode, where both runs
  have length 1).
\<close>

theorem rendered_line_count:
  "length (renderDiffLines E diffText options) = length (splitNewline diffText)
   \<and> (i < length lines \<longrightarrow>
        length (snd (renderStep E lang lines i)) = fst (renderStep E lang lines i) - i
        \<and> (\<not> hasSign chMinus (lines ! i) \<longrightarrow> length (snd (renderStep E lang lines i)) = 1)
        \<and> (hasSign chMinus (lines ! i) \<longrightarrow>
             length (snd (renderStep E lang lines i)) =
               length (takeWhile (hasSign chMinus) (drop i lines))
               + length (takeWhile (hasSign chPlus)
                   (drop (i + length (takeWhile (hasSign chMinus) (drop i lines))) lines))))"
proof -
  have a: "length (renderDiffLines E diffText options) = length (splitNewline diffText)"
    by (simp add: renderDiffLines_def length_renderLines)
  have b: "length (snd (renderStep E lang lines i)) = fst (renderStep E lang lines i) - i"
    if "i < length lines"
    using renderStep_count[OF that, of E lang] by simp
  have c: "length (snd (renderStep E lang lines i)) = 1" if "\<not> hasSign chMinus (lines ! i)"
    using that
    by (cases rule: unsigned_cases)
      (simp_all add: renderStep_raw renderStep_added renderStep_context)
  have d: "length (snd (renderStep E lang lines i)) =
               length (takeWhile (hasSign chMinus) (drop i lines))
               + length (takeWhile (hasSign chPlus)
                   (drop (i + length (takeWhile (hasSign chMinus) (drop i lines))) lines))"
    if "hasSign chMinus (lines ! i)"
    using renderStep_removed[OF that, of E lang] by (auto simp: Let_def intraLines_def)
  from a b c d show ?thesis by blast
qed

theorem rendered_line_count_witness:
  "length (renderDiffLines plainEnv sampleDiff \<lparr>filePath = None\<rparr>) = 4
   \<and> length (snd (renderStep plainEnv None (splitNewline sampleDiff) 0)) = 1
   \<and> length (snd (renderStep plainEnv None (splitNewline sampleDiff) 1)) = 2"
proof -
  let ?ls = "splitNewline sampleDiff"
  have h0: "\<not> hasSign chMinus (?ls ! 0)" and h1: "hasSign chMinus (?ls ! 1)"
    by (simp_all add: split_sampleDiff hasSign_def parse_samples chMinus_def chSpace_def)
  have t: "takeWhile (hasSign chMinus) (drop 1 ?ls) = [js ''-2 bar'']"
          "takeWhile (hasSign chPlus) (drop 2 ?ls) = [js ''+2 baz'']"
    by (simp_all add: split_sampleDiff hasSign_def parse_samples chMinus_def chSpace_def chPlus_def)
  from rendered_line_count[of plainEnv sampleDiff "\<lparr>filePath = None\<rparr>" 0 ?ls None]
       rendered_line_count[of plainEnv sampleDiff "\<lparr>filePath = None\<rparr>" 1 ?ls None]
       h0 h1 t
  show ?thesis by (simp add: split_sampleDiff)
qed


section \<open>Lines that do not parse\<close>

text \<open>
  C6: a line of the input that does not match the pattern is not an error. The output
  has one line per input line, and the line at the position of a line that does not
  parse is that line in the context colour, its text unchanged (no tab substitution
  is applied to it). The renderer is a total function.
\<close>

theorem raw_line_passthrough:
  assumes "k < length (splitNewline diffText)"
      and "parseDiffLine (splitNewline diffText ! k) = None"
  shows "length (renderDiffLines E diffText options) = length (splitNewline diffText)
       \<and> renderDiffLines E diffText options ! k
           = fg ToolDiffContext (plain (splitNewline diffText ! k))
       \<and> stripMarkers (renderDiffLines E diffText options ! k) = splitNewline diffText ! k"
proof -
  let ?ls = "splitNewline diffText"
  from assms(2) have u: "\<not> hasSign chMinus (?ls ! k)" "\<not> hasSign chPlus (?ls ! k)"
    by (simp_all add: hasSign_def)
  have "renderDiffLines E diffText options ! k = contextLine E (resolveLang E options) (?ls ! k)"
    unfolding renderDiffLines_def by (rule renderLines_nth_context[OF assms(1) u])
  with assms(2) have r: "renderDiffLines E diffText options ! k = fg ToolDiffContext (plain (?ls ! k))"
    by (simp add: contextLine_def rawLine_def)
  then show ?thesis
    by (simp add: renderDiffLines_def length_renderLines stripMarkers_fg stripMarkers_plain)
qed

theorem raw_line_passthrough_witness:
  "length (renderDiffLines plainEnv headerDiff \<lparr>filePath = None\<rparr>) = 1
   \<and> renderDiffLines plainEnv headerDiff \<lparr>filePath = None\<rparr> ! 0
       = fg ToolDiffContext (plain (js ''diff --git a/x b/x''))
   \<and> stripMarkers (renderDiffLines plainEnv headerDiff \<lparr>filePath = None\<rparr> ! 0)
       = js ''diff --git a/x b/x''"
proof -
  have sp: "splitNewline headerDiff = [js ''diff --git a/x b/x'']"
    by (simp add: headerDiff_def eval_chars)
  have k: "0 < length (splitNewline headerDiff)" by (simp add: sp)
  have n: "parseDiffLine (splitNewline headerDiff ! 0) = None"
    by (simp add: sp eval_parse eval_chars)
  from raw_line_passthrough[OF k n, of plainEnv "\<lparr>filePath = None\<rparr>"] show ?thesis
    by (simp add: sp stripMarkers_fg stripMarkers_plain)
qed

section \<open>A white-space marker is a context marker\<close>

text \<open>
  The pattern ends with \<open>(.*)$\<close> and \<open>.\<close> does not match a line terminator:
  a line whose text holds a carriage return, as the lines of a text with CRLF line
  ends do after the split on newline, does not parse, whatever its marker.
\<close>

lemma carriage_return_line_is_raw:
  "parseDiffLine (chTab # js '' '' @ js ''1'' @ chSpace # (js ''a'' @ [0x0D])) = None"
  by (simp add: eval_parse eval_chars)

text \<open>
  C10: a line made of a white-space character \<open>w\<close>, a run of white space, digits
  and a separating space parses, with prefix \<open>w\<close>, which is neither \<open>+\<close> nor
  \<open>-\<close>; so does such a line followed by any text without line terminator. And
  every line that parses with a prefix other than \<open>+\<close> and \<open>-\<close> is rendered at
  its position as a context line whose coloured prefix starts with a space, whatever
  its own first character was.
\<close>

theorem whitespace_marker_is_context:
  assumes "isWhiteSpace w" and "list_all isWhiteSpace ws" and "list_all isDigit ds"
  shows "(\<exists>p. parseDiffLine (w # ws @ ds @ [chSpace]) = Some p \<and> prefix p = w
            \<and> prefix p \<noteq> chPlus \<and> prefix p \<noteq> chMinus)
       \<and> (list_all (\<lambda>c. \<not> isLineTerminator c) rest \<longrightarrow>
            (\<exists>p. parseDiffLine (w # ws @ ds @ chSpace # rest) = Some p \<and> prefix p = w
               \<and> prefix p \<noteq> chPlus \<and> prefix p \<noteq> chMinus))
       \<and> (k < length (splitNewline diffText)
            \<and> parseDiffLine (splitNewline diffText ! k) = Some q
            \<and> prefix q \<noteq> chPlus \<and> prefix q \<noteq> chMinus \<longrightarrow>
            renderDiffLines E diffText options ! k
              = fg ToolDiffContext (plain (chSpace # lineNum q))
                @ Ch chSpace # highlightLine E (replaceTabs (content q)) (resolveLang E options))"
proof -
  have acc: "\<exists>p. parseDiffLine (w # ws @ ds @ chSpace # r) = Some p \<and> prefix p = w
            \<and> prefix p \<noteq> chPlus \<and> prefix p \<noteq> chMinus"
    if r: "list_all (\<lambda>c. \<not> isLineTerminator c) r" for r
  proof -
    from parseDiffLine_accepts[OF _ assms(2,3) r, of w] assms(1)
    obtain p where "parseDiffLine (w # ws @ ds @ chSpace # r) = Some p" "prefix p = w"
      by blast
    with isWhiteSpace_not_sign[OF assms(1)] show ?thesis by auto
  qed
  have emit: "renderDiffLines E diffText options ! k
          = fg ToolDiffContext (plain (chSpace # lineNum q))
            @ Ch chSpace # highlightLine E (replaceTabs (content q)) (resolveLang E options)"
    if a: "k < length (splitNewline diffText)
          \<and> parseDiffLine (splitNewline diffText ! k) = Some q
          \<and> prefix q \<noteq> chPlus \<and> prefix q \<noteq> chMinus"
  proof -
    let ?ls = "splitNewline diffText"
    from a have u: "\<not> hasSign chMinus (?ls ! k)" "\<not> hasSign chPlus (?ls ! k)"
      by (simp_all add: hasSign_def)
    from a have k: "k < length ?ls" by simp
    have "renderDiffLines E diffText options ! k = contextLine E (resolveLang E options) (?ls ! k)"
      unfolding renderDiffLines_def by (rule renderLines_nth_context[OF k u])
    with a show ?thesis
      by (simp add: contextLine_def blockLine_def)
  qed
  from acc[of "[]"] acc[of rest] emit show ?thesis by simp
qed

theorem whitespace_marker_is_context_witness:
  "(\<exists>p. parseDiffLine (chTab # js '' '' @ js ''12'' @ [chSpace]) = Some p
        \<and> prefix p = chTab \<and> prefix p \<noteq> chPlus \<and> prefix p \<noteq> chMinus)
   \<and> (\<exists>p. parseDiffLine (chTab # js '' '' @ js ''12'' @ chSpace # js ''foo'') = Some p
        \<and> prefix p = chTab \<and> prefix p \<noteq> chPlus \<and> prefix p \<noteq> chMinus)
   \<and> renderDiffLines plainEnv tabMarkedLine \<lparr>filePath = None\<rparr> ! 0
       = fg ToolDiffContext (plain (chSpace # js '' 12'')) @ Ch chSpace # plain (js ''foo'')"
proof -
  have sp: "splitNewline tabMarkedLine = [tabMarkedLine]"
    by (simp add: tabMarkedLine_def eval_chars)
  have pr: "parseDiffLine tabMarkedLine
            = Some \<lparr>lineNum = js '' 12'', content = js ''foo'', prefix = chTab\<rparr>"
    by (simp add: tabMarkedLine_def eval_parse eval_chars)
  have h: "isWhiteSpace chTab" "list_all isWhiteSpace (js '' '')" "list_all isDigit (js ''12'')"
    by (simp_all add: eval_chars)
  have lt: "list_all (\<lambda>c. \<not> isLineTerminator c) (js ''foo'')"
    by (simp add: eval_chars)
  have rl: "resolveLang plainEnv \<lparr>filePath = None\<rparr> = None"
    by (simp add: resolveLang_def)
  have rt: "replaceTabs (js ''foo'') = js ''foo''"
    by (simp add: eval_chars)
  from whitespace_marker_is_context[OF h, of "js ''foo''" 0 tabMarkedLine
      "\<lparr>lineNum = js '' 12'', content = js ''foo'', prefix = chTab\<rparr>"
      plainEnv "\<lparr>filePath = None\<rparr>"] lt
  show ?thesis
    by (simp add: sp pr rl rt highlightLine_None chTab_def chPlus_def chMinus_def)
qed

section \<open>The pairing policy\<close>

lemma hasSign_plus_not_minus: "hasSign chPlus l \<Longrightarrow> \<not> hasSign chMinus l"
  using hasSign_exclusive by blast

lemma intra_first_at: "(intraLines E d1 d2 ! 0) ! (2 + length (lineNum d1)) = Ch chSpace"
  by (simp add: intraLines_def Let_def fg_def plain_def nth_append)

lemma block_first_at:
  "blockLine E lang ToolDiffRemoved chMinus d1 ! (2 + length (lineNum d1)) = Mark FgOff"
  by (simp add: blockLine_def fg_def plain_def nth_append)

lemma intraLines_not_block:
  "intraLines E d1 d2
     \<noteq> [blockLine E lang ToolDiffRemoved chMinus d1, blockLine E lang ToolDiffAdded chPlus d2]"
proof
  assume "intraLines E d1 d2
     = [blockLine E lang ToolDiffRemoved chMinus d1, blockLine E lang ToolDiffAdded chPlus d2]"
  then have "intraLines E d1 d2 ! 0 = blockLine E lang ToolDiffRemoved chMinus d1" by simp
  then have "(intraLines E d1 d2 ! 0) ! (2 + length (lineNum d1))
             = blockLine E lang ToolDiffRemoved chMinus d1 ! (2 + length (lineNum d1))" by simp
  then show False by (simp only: intra_first_at block_first_at) simp
qed

text \<open>
  C2: at a cursor on a removed line, let \<open>rs\<close> be the run of removed lines
  starting there and \<open>as\<close> the run of added lines that follows it. The lines
  pushed are the two intra-line lines when both runs have length 1, and otherwise
  every removed line followed by every added line, each rendered on its own; the
  choice looks at the two lengths only. In particular two removed lines followed by
  one added line render as three block lines. The two forms never coincide: the
  intra-line lines differ from the two block lines of the same pair.
\<close>

theorem pairing_by_run_lengths:
  assumes "i < length lines" and "hasSign chMinus (lines ! i)"
  shows "(let rs = takeWhile (hasSign chMinus) (drop i lines);
              as = takeWhile (hasSign chPlus) (drop (i + length rs) lines)
          in snd (renderStep E lang lines i) =
               (if length rs = 1 \<and> length as = 1
                then intraLines E (difflineOf (hd rs)) (difflineOf (hd as))
                else map (blockLine E lang ToolDiffRemoved chMinus) (map difflineOf rs)
                     @ map (blockLine E lang ToolDiffAdded chPlus) (map difflineOf as)))
       \<and> (hasSign chMinus r1 \<and> hasSign chMinus r2 \<and> hasSign chPlus a1 \<longrightarrow>
            renderLines E lang [r1, r2, a1] =
              [blockLine E lang ToolDiffRemoved chMinus (difflineOf r1),
               blockLine E lang ToolDiffRemoved chMinus (difflineOf r2),
               blockLine E lang ToolDiffAdded chPlus (difflineOf a1)])
       \<and> intraLines E d1 d2
           \<noteq> [blockLine E lang ToolDiffRemoved chMinus d1,
               blockLine E lang ToolDiffAdded chPlus d2]"
proof (intro conjI)
  show "intraLines E d1 d2
           \<noteq> [blockLine E lang ToolDiffRemoved chMinus d1,
               blockLine E lang ToolDiffAdded chPlus d2]"
    by (rule intraLines_not_block)
next
  show "let rs = takeWhile (hasSign chMinus) (drop i lines);
              as = takeWhile (hasSign chPlus) (drop (i + length rs) lines)
          in snd (renderStep E lang lines i) =
               (if length rs = 1 \<and> length as = 1
                then intraLines E (difflineOf (hd rs)) (difflineOf (hd as))
                else map (blockLine E lang ToolDiffRemoved chMinus) (map difflineOf rs)
                     @ map (blockLine E lang ToolDiffAdded chPlus) (map difflineOf as))"
    using renderStep_removed[OF assms(2), of E lang] by (simp only: Let_def snd_conv)
next
  show "hasSign chMinus r1 \<and> hasSign chMinus r2 \<and> hasSign chPlus a1 \<longrightarrow>
            renderLines E lang [r1, r2, a1] =
              [blockLine E lang ToolDiffRemoved chMinus (difflineOf r1),
               blockLine E lang ToolDiffRemoved chMinus (difflineOf r2),
               blockLine E lang ToolDiffAdded chPlus (difflineOf a1)]"
  proof
    assume h: "hasSign chMinus r1 \<and> hasSign chMinus r2 \<and> hasSign chPlus a1"
    then have na: "\<not> hasSign chMinus a1" by (simp add: hasSign_plus_not_minus)
    have m0: "hasSign chMinus ([r1, r2, a1] ! 0)" using h by simp
    have st: "renderStep E lang [r1, r2, a1] 0 =
        (3, [blockLine E lang ToolDiffRemoved chMinus (difflineOf r1),
             blockLine E lang ToolDiffRemoved chMinus (difflineOf r2),
             blockLine E lang ToolDiffAdded chPlus (difflineOf a1)])"
      using h na by (simp add: renderStep_removed[OF m0] Let_def)
    show "renderLines E lang [r1, r2, a1] =
              [blockLine E lang ToolDiffRemoved chMinus (difflineOf r1),
               blockLine E lang ToolDiffRemoved chMinus (difflineOf r2),
               blockLine E lang ToolDiffAdded chPlus (difflineOf a1)]"
      by (simp add: renderLines_step st renderLines_Nil)
  qed
qed


theorem pairing_by_run_lengths_witness:
  "snd (renderStep plainEnv None (splitNewline blockDiff) 0) =
     [fg ToolDiffRemoved (plain (js ''-1'')) @ Ch chSpace # plain (js ''a''),
      fg ToolDiffRemoved (plain (js ''-2'')) @ Ch chSpace # plain (js ''b''),
      fg ToolDiffAdded (plain (js ''+1'')) @ Ch chSpace # plain (js ''c'')]
   \<and> snd (renderStep plainEnv None (splitNewline sampleDiff) 1) =
     [fg ToolDiffRemoved (plain (js ''-2 '') @ inverse_text (plain (js ''bar''))),
      fg ToolDiffAdded (plain (js ''+2 '') @ inverse_text (plain (js ''baz'')))]
   \<and> renderLines plainEnv None [js ''-1 a'', js ''-2 b'', js ''+1 c''] =
     [fg ToolDiffRemoved (plain (js ''-1'')) @ Ch chSpace # plain (js ''a''),
      fg ToolDiffRemoved (plain (js ''-2'')) @ Ch chSpace # plain (js ''b''),
      fg ToolDiffAdded (plain (js ''+1'')) @ Ch chSpace # plain (js ''c'')]"
proof -
  let ?b = "splitNewline blockDiff" and ?s = "splitNewline sampleDiff"
  have hs: "hasSign chMinus (js ''-1 a'')" "hasSign chMinus (js ''-2 b'')"
    "hasSign chPlus (js ''+1 c'')" "\<not> hasSign chMinus (js ''+1 c'')"
    "hasSign chMinus (js ''-2 bar'')" "hasSign chPlus (js ''+2 baz'')"
    "\<not> hasSign chMinus (js ''+2 baz'')" "\<not> hasSign chPlus (js '' 3 qux'')"
    by (simp_all add: hasSign_def parse_samples chMinus_def chPlus_def chSpace_def)
  have dl: "difflineOf (js ''-1 a'') = \<lparr>lineNum = js ''1'', content = js ''a''\<rparr>"
    "difflineOf (js ''-2 b'') = \<lparr>lineNum = js ''2'', content = js ''b''\<rparr>"
    "difflineOf (js ''+1 c'') = \<lparr>lineNum = js ''1'', content = js ''c''\<rparr>"
    "difflineOf (js ''-2 bar'') = \<lparr>lineNum = js ''2'', content = js ''bar''\<rparr>"
    "difflineOf (js ''+2 baz'') = \<lparr>lineNum = js ''2'', content = js ''baz''\<rparr>"
    by (simp_all add: difflineOf_def parse_samples)
  have b0: "0 < length ?b" "hasSign chMinus (?b ! 0)"
    by (simp_all add: split_blockDiff hs)
  have s1: "1 < length ?s" "hasSign chMinus (?s ! 1)"
    by (simp_all add: split_sampleDiff hs)
  have bl: "blockLine plainEnv None ToolDiffRemoved chMinus \<lparr>lineNum = js ''1'', content = js ''a''\<rparr>
              = fg ToolDiffRemoved (plain (js ''-1'')) @ Ch chSpace # plain (js ''a'')"
    "blockLine plainEnv None ToolDiffRemoved chMinus \<lparr>lineNum = js ''2'', content = js ''b''\<rparr>
              = fg ToolDiffRemoved (plain (js ''-2'')) @ Ch chSpace # plain (js ''b'')"
    "blockLine plainEnv None ToolDiffAdded chPlus \<lparr>lineNum = js ''1'', content = js ''c''\<rparr>
              = fg ToolDiffAdded (plain (js ''+1'')) @ Ch chSpace # plain (js ''c'')"
    by (simp_all add: blockLine_def highlightLine_None eval_chars)
  have il: "intraLines plainEnv \<lparr>lineNum = js ''2'', content = js ''bar''\<rparr>
              \<lparr>lineNum = js ''2'', content = js ''baz''\<rparr>
            = [fg ToolDiffRemoved (plain (js ''-2 '') @ inverse_text (plain (js ''bar''))),
               fg ToolDiffAdded (plain (js ''+2 '') @ inverse_text (plain (js ''baz'')))]"
    by (simp add: intraLines_def renderIntraLineDiff_def plainEnv_def intraInit_def intraPart_def
        Let_def eval_chars plain_def)
  from pairing_by_run_lengths[OF b0, of plainEnv None "js ''-1 a''" "js ''-2 b''" "js ''+1 c''"]
       pairing_by_run_lengths[OF s1, of plainEnv None "js ''-1 a''" "js ''-2 b''" "js ''+1 c''"]
  show ?thesis
    by (simp add: split_blockDiff split_sampleDiff hs dl bl il Let_def)
qed


section \<open>One pass over the lines\<close>

lemma run_is_maximal:
  "i + length (takeWhile P (drop i xs)) < length xs \<Longrightarrow>
   \<not> P (xs ! (i + length (takeWhile P (drop i xs))))"
proof -
  assume a: "i + length (takeWhile P (drop i xs)) < length xs"
  then have "length (takeWhile P (drop i xs)) < length (drop i xs)" by simp
  from nth_length_takeWhile[OF this] a show ?thesis by simp
qed

lemma renderLoop_step_rest:
  assumes "i < length lines"
  shows "renderLoop E lang lines i res =
           res @ snd (renderStep E lang lines i)
           @ renderLines E lang (drop (fst (renderStep E lang lines i)) lines)"
proof -
  let ?i' = "fst (renderStep E lang lines i)" and ?out = "snd (renderStep E lang lines i)"
  from renderStep_count[OF assms, of E lang] have le: "?i' \<le> length lines" by simp
  have "renderLoop E lang lines i res = renderLoop E lang lines ?i' (res @ ?out)"
    by (rule renderLoop_unfold[OF assms])
  also have "\<dots> = (res @ ?out) @ renderLoop E lang lines ?i' []"
    by (rule renderLoop_acc)
  finally show ?thesis by (simp add: renderLoop_drop[OF le])
qed

text \<open>
  C4: a step at cursor \<open>i\<close> moves the cursor strictly forward and never beyond the
  end; the result of the loop from \<open>i\<close> is what was pushed before, then what this
  step pushes, then the rendering of the lines from the new cursor on, so no line is
  looked at again after the cursor has passed it, and there is one rendered line per
  line. On a removed line the cursor moves past the run of removed lines starting
  there and the run of added lines following it; both runs are maximal (the line
  after each, if any, does not belong to it), the second may be empty. In block mode
  the removed lines are pushed in order, then the added lines in order.
\<close>

theorem single_pass_grouping:
  assumes "i < length lines"
  shows "i < fst (renderStep E lang lines i) \<and> fst (renderStep E lang lines i) \<le> length lines
       \<and> renderLoop E lang lines i res =
             res @ snd (renderStep E lang lines i)
             @ renderLines E lang (drop (fst (renderStep E lang lines i)) lines)
       \<and> length (renderLines E lang lines) = length lines
       \<and> (hasSign chMinus (lines ! i) \<longrightarrow>
            (let rs = takeWhile (hasSign chMinus) (drop i lines);
                 as = takeWhile (hasSign chPlus) (drop (i + length rs) lines)
             in fst (renderStep E lang lines i) = i + length rs + length as
                \<and> 0 < length rs
                \<and> (i + length rs < length lines \<longrightarrow>
                       \<not> hasSign chMinus (lines ! (i + length rs)))
                \<and> (i + length rs + length as < length lines \<longrightarrow>
                       \<not> hasSign chPlus (lines ! (i + length rs + length as)))
                \<and> (\<not> (length rs = 1 \<and> length as = 1) \<longrightarrow>
                       snd (renderStep E lang lines i) =
                         map (blockLine E lang ToolDiffRemoved chMinus) (map difflineOf rs)
                         @ map (blockLine E lang ToolDiffAdded chPlus) (map difflineOf as))))"
proof -
  have a: "i < fst (renderStep E lang lines i) \<and> fst (renderStep E lang lines i) \<le> length lines"
    using renderStep_count[OF assms, of E lang] by simp
  have b: "renderLoop E lang lines i res =
             res @ snd (renderStep E lang lines i)
             @ renderLines E lang (drop (fst (renderStep E lang lines i)) lines)"
    by (rule renderLoop_step_rest[OF assms])
  have c: "length (renderLines E lang lines) = length lines"
    by (rule length_renderLines)
  have d: "let rs = takeWhile (hasSign chMinus) (drop i lines);
                 as = takeWhile (hasSign chPlus) (drop (i + length rs) lines)
             in fst (renderStep E lang lines i) = i + length rs + length as
                \<and> 0 < length rs
                \<and> (i + length rs < length lines \<longrightarrow>
                       \<not> hasSign chMinus (lines ! (i + length rs)))
                \<and> (i + length rs + length as < length lines \<longrightarrow>
                       \<not> hasSign chPlus (lines ! (i + length rs + length as)))
                \<and> (\<not> (length rs = 1 \<and> length as = 1) \<longrightarrow>
                       snd (renderStep E lang lines i) =
                         map (blockLine E lang ToolDiffRemoved chMinus) (map difflineOf rs)
                         @ map (blockLine E lang ToolDiffAdded chPlus) (map difflineOf as))"
    if m: "hasSign chMinus (lines ! i)"
  proof -
    let ?rs = "takeWhile (hasSign chMinus) (drop i lines)"
    let ?as = "takeWhile (hasSign chPlus) (drop (i + length ?rs) lines)"
    have st: "renderStep E lang lines i =
       (i + length ?rs + length ?as,
        if length ?rs = 1 \<and> length ?as = 1
        then intraLines E (difflineOf (hd ?rs)) (difflineOf (hd ?as))
        else map (blockLine E lang ToolDiffRemoved chMinus) (map difflineOf ?rs)
             @ map (blockLine E lang ToolDiffAdded chPlus) (map difflineOf ?as))"
      using renderStep_removed[OF m, of E lang] by (simp only: Let_def)
    from assms have dr: "drop i lines = lines ! i # drop (Suc i) lines"
      by (simp add: Cons_nth_drop_Suc)
    with m have pos: "0 < length ?rs" by simp
    have m1: "i + length ?rs < length lines \<longrightarrow> \<not> hasSign chMinus (lines ! (i + length ?rs))"
      using run_is_maximal[of i "hasSign chMinus" lines] by blast
    have m2: "i + length ?rs + length ?as < length lines \<longrightarrow>
              \<not> hasSign chPlus (lines ! (i + length ?rs + length ?as))"
      using run_is_maximal[of "i + length ?rs" "hasSign chPlus" lines] by blast
    have f: "fst (renderStep E lang lines i) = i + length ?rs + length ?as"
      by (simp only: st fst_conv)
    have g: "\<not> (length ?rs = 1 \<and> length ?as = 1) \<longrightarrow>
                       snd (renderStep E lang lines i) =
                         map (blockLine E lang ToolDiffRemoved chMinus) (map difflineOf ?rs)
                         @ map (blockLine E lang ToolDiffAdded chPlus) (map difflineOf ?as)"
      unfolding st snd_conv by (rule impI) (simp only: if_False)
    from f pos m1 m2 g show ?thesis
      unfolding Let_def by blast
  qed
  from a b c d show ?thesis by blast
qed


theorem single_pass_grouping_witness:
  "fst (renderStep plainEnv None (splitNewline blockDiff) 0) = 3
   \<and> renderLoop plainEnv None (splitNewline blockDiff) 0 [] =
     [fg ToolDiffRemoved (plain (js ''-1'')) @ Ch chSpace # plain (js ''a''),
      fg ToolDiffRemoved (plain (js ''-2'')) @ Ch chSpace # plain (js ''b''),
      fg ToolDiffAdded (plain (js ''+1'')) @ Ch chSpace # plain (js ''c'')]
   \<and> length (renderLines plainEnv None (splitNewline blockDiff)) = 3"
proof -
  let ?b = "splitNewline blockDiff"
  have hs: "hasSign chMinus (js ''-1 a'')" "hasSign chMinus (js ''-2 b'')"
    "hasSign chPlus (js ''+1 c'')" "\<not> hasSign chMinus (js ''+1 c'')"
    by (simp_all add: hasSign_def parse_samples chMinus_def chPlus_def)
  have dl: "difflineOf (js ''-1 a'') = \<lparr>lineNum = js ''1'', content = js ''a''\<rparr>"
    "difflineOf (js ''-2 b'') = \<lparr>lineNum = js ''2'', content = js ''b''\<rparr>"
    "difflineOf (js ''+1 c'') = \<lparr>lineNum = js ''1'', content = js ''c''\<rparr>"
    by (simp_all add: difflineOf_def parse_samples)
  have bl: "blockLine plainEnv None ToolDiffRemoved chMinus \<lparr>lineNum = js ''1'', content = js ''a''\<rparr>
              = fg ToolDiffRemoved (plain (js ''-1'')) @ Ch chSpace # plain (js ''a'')"
    "blockLine plainEnv None ToolDiffRemoved chMinus \<lparr>lineNum = js ''2'', content = js ''b''\<rparr>
              = fg ToolDiffRemoved (plain (js ''-2'')) @ Ch chSpace # plain (js ''b'')"
    "blockLine plainEnv None ToolDiffAdded chPlus \<lparr>lineNum = js ''1'', content = js ''c''\<rparr>
              = fg ToolDiffAdded (plain (js ''+1'')) @ Ch chSpace # plain (js ''c'')"
    by (simp_all add: blockLine_def highlightLine_None eval_chars)
  have b0: "0 < length ?b" by (simp add: split_blockDiff)
  from single_pass_grouping[OF b0, of plainEnv None "[]"]
  show ?thesis
    by (simp add: split_blockDiff hs dl bl Let_def renderLines_Nil)
qed

section \<open>Tab escapes are replaced first\<close>













section \<open>Falling back to plain text\<close>

text \<open>
  C8: when the file path is absent or the resolver returns none, no language is
  resolved; with no language, or when the highlighter returns an empty array, the
  rendered content of a line outside intra-line mode is the tab-substituted content
  as plain text, as in the context line at position \<open>k\<close>. None of this fails.
\<close>

theorem highlight_fallback:
  "((filePath options = None \<or> (\<exists>fp. filePath options = Some fp \<and> getLanguageFromPath E fp = None))
      \<longrightarrow> resolveLang E options = None)
   \<and> ((lang = None \<or> (\<exists>l. lang = Some l \<and> highlightCode E c l = []))
      \<longrightarrow> highlightLine E c lang = plain c)
   \<and> ((lang = None \<or> (\<exists>l. lang = Some l \<and> highlightCode E (replaceTabs (content d)) l = []))
      \<longrightarrow> blockLine E lang col sign d
            = fg col (plain (sign # lineNum d)) @ Ch chSpace # plain (replaceTabs (content d)))
   \<and> (resolveLang E options = None \<and> k < length (splitNewline diffText)
        \<and> parseDiffLine (splitNewline diffText ! k) = Some q
        \<and> prefix q \<noteq> chPlus \<and> prefix q \<noteq> chMinus
      \<longrightarrow> renderDiffLines E diffText options ! k
            = fg ToolDiffContext (plain (chSpace # lineNum q))
              @ Ch chSpace # plain (replaceTabs (content q)))"
proof -
  have a: "resolveLang E options = None"
    if "filePath options = None \<or> (\<exists>fp. filePath options = Some fp \<and> getLanguageFromPath E fp = None)"
    using that by (auto simp: resolveLang_def)
  have b: "highlightLine E c' lang = plain c'"
    if "lang = None \<or> (\<exists>l. lang = Some l \<and> highlightCode E c' l = [])" for c'
    using that by (auto simp: highlightLine_def)
  have c: "blockLine E lang col sign d
            = fg col (plain (sign # lineNum d)) @ Ch chSpace # plain (replaceTabs (content d))"
    if "lang = None \<or> (\<exists>l. lang = Some l \<and> highlightCode E (replaceTabs (content d)) l = [])"
    using b[OF that] by (simp add: blockLine_def)
  have d: "renderDiffLines E diffText options ! k
            = fg ToolDiffContext (plain (chSpace # lineNum q))
              @ Ch chSpace # plain (replaceTabs (content q))"
    if h: "resolveLang E options = None \<and> k < length (splitNewline diffText)
        \<and> parseDiffLine (splitNewline diffText ! k) = Some q
        \<and> prefix q \<noteq> chPlus \<and> prefix q \<noteq> chMinus"
  proof -
    let ?ls = "splitNewline diffText"
    from h have u: "\<not> hasSign chMinus (?ls ! k)" "\<not> hasSign chPlus (?ls ! k)"
      by (simp_all add: hasSign_def)
    from h have k: "k < length ?ls" by simp
    have "renderDiffLines E diffText options ! k = contextLine E (resolveLang E options) (?ls ! k)"
      unfolding renderDiffLines_def by (rule renderLines_nth_context[OF k u])
    with h show ?thesis
      by (simp add: contextLine_def blockLine_def highlightLine_None)
  qed
  from a b[of c] c d show ?thesis by blast
qed

theorem highlight_fallback_witness:
  "resolveLang plainEnv \<lparr>filePath = None\<rparr> = None
   \<and> resolveLang plainEnv \<lparr>filePath = Some (js ''a.unknown'')\<rparr> = None
   \<and> highlightLine tsEnv (js ''x'') (resolveLang tsEnv \<lparr>filePath = Some (js ''a.ts'')\<rparr>)
       = plain (js ''x'')
   \<and> blockLine plainEnv None ToolDiffAdded chPlus \<lparr>lineNum = js ''1'', content = js ''c''\<rparr>
       = fg ToolDiffAdded (plain (chPlus # js ''1'')) @ Ch chSpace # plain (js ''c'')
   \<and> renderDiffLines plainEnv tabMarkedLine \<lparr>filePath = None\<rparr> ! 0
       = fg ToolDiffContext (plain (chSpace # js '' 12'')) @ Ch chSpace # plain (js ''foo'')"
proof -
  have sp: "splitNewline tabMarkedLine = [tabMarkedLine]"
    by (simp add: tabMarkedLine_def eval_chars)
  have pr: "parseDiffLine tabMarkedLine
            = Some \<lparr>lineNum = js '' 12'', content = js ''foo'', prefix = chTab\<rparr>"
    by (simp add: tabMarkedLine_def eval_parse eval_chars)
  have rt: "replaceTabs (js ''foo'') = js ''foo''" "replaceTabs (js ''c'') = js ''c''"
    by (simp_all add: eval_chars)
  have g: "getLanguageFromPath plainEnv (js ''a.unknown'') = None"
    "js ''a.unknown'' \<noteq> []" "js ''a.ts'' \<noteq> []" "js ''typescript'' \<noteq> []"
    "highlightCode tsEnv (js ''x'') (js ''typescript'') = []"
    "resolveLang tsEnv \<lparr>filePath = Some (js ''a.ts'')\<rparr> = Some (js ''typescript'')"
    by (simp_all add: plainEnv_def tsEnv_def resolveLang_def js_def)
  from highlight_fallback[of "\<lparr>filePath = None\<rparr>" plainEnv None "js ''x''"
         "\<lparr>lineNum = js ''1'', content = js ''c''\<rparr>" ToolDiffAdded chPlus 0 tabMarkedLine
         "\<lparr>lineNum = js '' 12'', content = js ''foo'', prefix = chTab\<rparr>"]
       highlight_fallback[of "\<lparr>filePath = Some (js ''a.unknown'')\<rparr>" plainEnv None "js ''x''"
         "\<lparr>lineNum = js ''1'', content = js ''c''\<rparr>" ToolDiffAdded chPlus 0 tabMarkedLine
         "\<lparr>lineNum = js '' 12'', content = js ''foo'', prefix = chTab\<rparr>"]
       highlight_fallback[of "\<lparr>filePath = Some (js ''a.ts'')\<rparr>" tsEnv
         "Some (js ''typescript'')" "js ''x''"
         "\<lparr>lineNum = js ''1'', content = js ''c''\<rparr>" ToolDiffAdded chPlus 0 tabMarkedLine
         "\<lparr>lineNum = js '' 12'', content = js ''foo'', prefix = chTab\<rparr>"]
  show ?thesis
    by (simp add: sp pr rt g chTab_def chPlus_def chMinus_def)
qed

end
